theory Spec2Isabelle
  imports Main "HOL-Library.Word" "HOL-Library.Sublist"
begin

section \<open>JavaScript strings and numbers\<close>

text \<open>
  A JavaScript string is a sequence of UTF-16 code units; \<open>length\<close>, \<open>slice\<close>, indexing
  and the regular expressions of \<^verbatim>\<open>route.ts\<close> all work on code units, and the separator
  U+2192 (rightwards arrow) of the local generator does not fit in a byte. Strings are
  therefore lists of 16-bit words. \<open>U\<close> turns an ASCII literal into such a string.
\<close>

type_synonym jschar = "16 word"
type_synonym jsstring = "jschar list"

definition U :: "string \<Rightarrow> jsstring" where
  "U s = map of_char s"

text \<open>
  Numbers are IEEE doubles in the source. Their arithmetic is not needed here, only three
  primitives, which the model takes as parameters: \<open>String(n)\<close>, the truthiness of a number
  (false for \<open>0\<close>, \<open>-0\<close> and \<open>NaN\<close>), and the number denoted by an integer literal.
\<close>

record 'n number_ops =
  num_String :: "'n \<Rightarrow> jsstring"
  num_truthy :: "'n \<Rightarrow> bool"
  num_lit :: "int \<Rightarrow> 'n"

text \<open>\<open>String(i)\<close> for a non-negative integer loop counter: its decimal digits.\<close>

fun nat_String :: "nat \<Rightarrow> jsstring" where
  "nat_String n = (if n < 10 then [of_nat (48 + n)]
                   else nat_String (n div 10) @ [of_nat (48 + n mod 10)])"

declare nat_String.simps [simp del]

text \<open>
  \<open>String.prototype.trim\<close> and the regular-expression class \<^verbatim>\<open>\s\<close> use the same set:
  WhiteSpace and LineTerminator of ECMAScript.
\<close>

definition is_ws :: "jschar \<Rightarrow> bool" where
  "is_ws c \<longleftrightarrow> c \<in> {0x9, 0xA, 0xB, 0xC, 0xD, 0x20, 0xA0, 0x1680, 0x2028, 0x2029,
                   0x202F, 0x205F, 0x3000, 0xFEFF} \<or> (0x2000 \<le> c \<and> c \<le> 0x200A)"

definition trim :: "jsstring \<Rightarrow> jsstring" where
  "trim s = rev (dropWhile is_ws (rev (dropWhile is_ws s)))"

text \<open>\<open>s.includes(sub)\<close>: \<open>sub\<close> occurs as a contiguous block of \<open>s\<close>.\<close>

fun js_includes :: "jsstring \<Rightarrow> jsstring \<Rightarrow> bool" where
  "js_includes [] sub = (sub = [])"
| "js_includes (c # cs) sub = (prefix sub (c # cs) \<or> js_includes cs sub)"

text \<open>\<open>s.slice(0, n)\<close> is \<open>take n s\<close>; \<open>s.replace(/[()]/g, "")\<close> deletes both parentheses.\<close>

definition strip_parens :: "jsstring \<Rightarrow> jsstring" where
  "strip_parens s = filter (\<lambda>c. c \<noteq> 0x28 \<and> c \<noteq> 0x29) s"

text \<open>
  \<open>prompt.split(/\<rightarrow>|->|,/)\<close>: the text is cut at every arrow U+2192, every two-unit
  \<open>->\<close> and every comma, scanning from the left; \<open>cur\<close> is the piece being read.
  The empty string yields the single piece \<open>""\<close>.
\<close>

fun split_from :: "jsstring \<Rightarrow> jsstring \<Rightarrow> jsstring list" where
  "split_from cur [] = [cur]"
| "split_from cur [c] = (if c = 0x2192 \<or> c = 0x2C then [cur, []] else [cur @ [c]])"
| "split_from cur (c # d # ds) =
     (if c = 0x2192 \<or> c = 0x2C then cur # split_from [] (d # ds)
      else if c = 0x2D \<and> d = 0x3E then cur # split_from [] ds
      else split_from (cur @ [c]) (d # ds))"

definition split_seps :: "jsstring \<Rightarrow> jsstring list" where
  "split_seps s = split_from [] s"

section \<open>The graph schema\<close>

datatype node_type = Process | Decision | StartEnd | InputOutput

record 'n FlowchartNode =
  node_id :: jsstring
  node_type :: node_type
  position_x :: 'n
  position_y :: 'n
  data_label :: jsstring

record FlowchartEdge =
  edge_id :: jsstring
  source :: jsstring
  target :: jsstring
  label :: "jsstring option"
  animated :: "bool option"

record 'n AIGeneratedFlow =
  nodes :: "'n FlowchartNode list"
  edges :: "FlowchartEdge list"

section \<open>Fallback: local generation\<close>

definition split_parts :: "jsstring \<Rightarrow> jsstring list" where
  "split_parts prompt = filter (\<lambda>p. length p > 0) (map trim (split_seps prompt))"

definition isDecision :: "jsstring \<Rightarrow> bool" where
  "isDecision part \<longleftrightarrow>
     js_includes part (U ''check'') \<or> js_includes part (U ''verify'') \<or>
     js_includes part (U ''validate'') \<or> js_includes part (U ''if '') \<or>
     js_includes part (U ''?'')"

text \<open>The variables the \<open>for\<close> loop of \<open>generateLocalFlowchart\<close> updates.\<close>

record 'n loop_state =
  st_nodes :: "'n FlowchartNode list"
  st_edges :: "FlowchartEdge list"
  currentY :: int
  lastNodeId :: jsstring

definition plain_edge :: "jsstring \<Rightarrow> jsstring \<Rightarrow> FlowchartEdge" where
  "plain_edge s t = \<lparr>edge_id = U ''e-'' @ s @ U ''-'' @ t, source = s, target = t,
                     label = None, animated = Some True\<rparr>"

definition labelled_edge :: "jsstring \<Rightarrow> jsstring \<Rightarrow> jsstring \<Rightarrow> FlowchartEdge" where
  "labelled_edge s t l = \<lparr>edge_id = U ''e-'' @ s @ U ''-'' @ t, source = s, target = t,
                          label = Some l, animated = Some True\<rparr>"

text \<open>
  The body of the branch \<open>isDecision && i < parts.length - 1\<close>: decision node, its
  two lanes and the merge node. The tests \<open>i === parts.length - 2\<close> and
  \<open>i < parts.length - 1\<close> are written with additions, so that they mean the same on
  natural numbers. \<open>parts[i + 1]?.slice(0, 25) || "Next"\<close> falls back to \<open>"Next"\<close> when the
  entry is missing or its slice is empty.
\<close>

definition decision_step ::
  "'n number_ops \<Rightarrow> jsstring list \<Rightarrow> nat \<Rightarrow> 'n loop_state \<Rightarrow> 'n loop_state" where
  "decision_step N parts i st =
     (let part = parts ! i;
          nodeId = U ''step-'' @ nat_String i;
          yesId = nodeId @ U ''-yes'';
          noId = nodeId @ U ''-no'';
          y = currentY st;
          y' = y + 240;
          mergeId = U ''merge-'' @ nat_String i;
          next_label = (if i + 1 < length parts \<and> take 25 (parts ! (i + 1)) \<noteq> []
                        then take 25 (parts ! (i + 1)) else U ''Next'')
      in \<lparr>st_nodes = st_nodes st @
            [\<lparr>node_id = nodeId, node_type = Decision,
              position_x = num_lit N 250, position_y = num_lit N y,
              data_label = take 25 (strip_parens part)\<rparr>,
             \<lparr>node_id = yesId, node_type = Process,
              position_x = num_lit N 50, position_y = num_lit N (y + 120),
              data_label = U ''Continue''\<rparr>,
             \<lparr>node_id = noId, node_type = Process,
              position_x = num_lit N 450, position_y = num_lit N (y + 120),
              data_label = U ''Handle''\<rparr>,
             \<lparr>node_id = mergeId,
              node_type = (if i + 2 = length parts then StartEnd else Process),
              position_x = num_lit N 250, position_y = num_lit N y',
              data_label = (if i + 2 = length parts then U ''End'' else next_label)\<rparr>],
          st_edges = st_edges st @
            [plain_edge (lastNodeId st) nodeId,
             labelled_edge nodeId yesId (U ''Yes''),
             labelled_edge nodeId noId (U ''No''),
             plain_edge yesId mergeId,
             plain_edge noId mergeId],
          currentY = y',
          lastNodeId = mergeId\<rparr>)"

text \<open>The \<open>else\<close> branch: one node on the main axis, \<open>startEnd\<close> when it is the last part.\<close>

definition plain_step ::
  "'n number_ops \<Rightarrow> jsstring list \<Rightarrow> nat \<Rightarrow> 'n loop_state \<Rightarrow> 'n loop_state" where
  "plain_step N parts i st =
     (let part = parts ! i;
          nodeId = U ''step-'' @ nat_String i;
          isEnd = (i + 1 = length parts)
      in \<lparr>st_nodes = st_nodes st @
            [\<lparr>node_id = nodeId, node_type = (if isEnd then StartEnd else Process),
              position_x = num_lit N 250, position_y = num_lit N (currentY st),
              data_label = take 25 (strip_parens part)\<rparr>],
          st_edges = st_edges st @ [plain_edge (lastNodeId st) nodeId],
          currentY = currentY st + 120,
          lastNodeId = nodeId\<rparr>)"

text \<open>
  \<open>for (let i = 1; i < Math.min(parts.length, 8); i++)\<close>. The decision branch ends with
  its own \<open>i++\<close>, so it continues at \<open>i + 2\<close>.
\<close>

function loop ::
  "'n number_ops \<Rightarrow> jsstring list \<Rightarrow> nat \<Rightarrow> 'n loop_state \<Rightarrow> 'n loop_state" where
  "loop N parts i st =
     (if i < min (length parts) 8 then
        (if isDecision (parts ! i) \<and> i + 1 < length parts
         then loop N parts (i + 2) (decision_step N parts i st)
         else loop N parts (i + 1) (plain_step N parts i st))
      else st)"
  by pat_completeness auto
termination
  by (relation "measure (\<lambda>(N, parts, i, st). min (length parts) 8 - i)") auto

declare loop.simps [simp del]

definition skeleton :: "'n number_ops \<Rightarrow> jsstring \<Rightarrow> 'n AIGeneratedFlow" where
  "skeleton N prompt =
     \<lparr>nodes =
        [\<lparr>node_id = U ''start'', node_type = StartEnd,
          position_x = num_lit N 250, position_y = num_lit N 0,
          data_label = U ''Start''\<rparr>,
         \<lparr>node_id = U ''process'', node_type = Process,
          position_x = num_lit N 250, position_y = num_lit N 120,
          data_label = (if take 25 prompt \<noteq> [] then take 25 prompt else U ''Process'')\<rparr>,
         \<lparr>node_id = U ''end'', node_type = StartEnd,
          position_x = num_lit N 250, position_y = num_lit N 240,
          data_label = U ''End''\<rparr>],
      edges =
        [\<lparr>edge_id = U ''e1'', source = U ''start'', target = U ''process'',
          label = None, animated = Some True\<rparr>,
         \<lparr>edge_id = U ''e2'', source = U ''process'', target = U ''end'',
          label = None, animated = Some True\<rparr>]\<rparr>"

definition generateLocalFlowchart ::
  "'n number_ops \<Rightarrow> jsstring \<Rightarrow> jsstring \<Rightarrow> 'n AIGeneratedFlow" where
  "generateLocalFlowchart N prompt type =
     (let parts = split_parts prompt
      in if length parts \<ge> 3 then
           (let st = loop N parts 1
                  \<lparr>st_nodes = [\<lparr>node_id = U ''start'', node_type = StartEnd,
                                position_x = num_lit N 250, position_y = num_lit N 0,
                                data_label = take 25 (strip_parens (parts ! 0))\<rparr>],
                   st_edges = [], currentY = 120, lastNodeId = U ''start''\<rparr>
            in \<lparr>nodes = st_nodes st, edges = st_edges st\<rparr>)
         else skeleton N prompt)"

section \<open>Decoded JSON values\<close>

text \<open>
  What \<open>JSON.parse\<close> returns, and what the sanitizer receives: an untyped value. An object
  is its list of own properties.
\<close>

datatype 'n json =
    JNull
  | JBool bool
  | JNum 'n
  | JStr jsstring
  | JArr "'n json list"
  | JObj "(jsstring \<times> 'n json) list"

datatype error = TypeError

text \<open>
  Reading a property \<open>v.k\<close> of a value that is not \<open>null\<close>; \<open>None\<close> is \<open>undefined\<close>.
  The names read in \<^verbatim>\<open>route.ts\<close> (\<open>nodes\<close>, \<open>edges\<close>, \<open>id\<close>, \<open>type\<close>, \<open>position\<close>, \<open>x\<close>,
  \<open>y\<close>, \<open>data\<close>, \<open>label\<close>, \<open>source\<close>, \<open>target\<close>) are defined by no prototype, so only the
  own properties of an object count, and every other value gives \<open>undefined\<close>.
  Every such read in the source is guarded by a truthiness test or by \<open>?.\<close>, which turn
  \<open>null\<close> into \<open>undefined\<close> as well.
\<close>

definition get_prop :: "'n json \<Rightarrow> jsstring \<Rightarrow> 'n json option" where
  "get_prop v k = (case v of JObj kvs \<Rightarrow> map_of kvs k | _ \<Rightarrow> None)"

fun truthy :: "'n number_ops \<Rightarrow> 'n json option \<Rightarrow> bool" where
  "truthy N None = False"
| "truthy N (Some JNull) = False"
| "truthy N (Some (JBool b)) = b"
| "truthy N (Some (JNum n)) = num_truthy N n"
| "truthy N (Some (JStr s)) = (s \<noteq> [])"
| "truthy N (Some (JArr vs)) = True"
| "truthy N (Some (JObj kvs)) = True"

text \<open>
  \<open>String(v)\<close>, also what a template literal applies. An array is joined with commas,
  \<open>null\<close> elements giving the empty string. A plain object gives \<open>[object Object]\<close>,
  unless it has an own property \<open>toString\<close>: a decoded value is never callable, the
  inherited \<open>valueOf\<close> returns the object itself, and the conversion throws a TypeError.
\<close>

fun js_String :: "'n number_ops \<Rightarrow> 'n json \<Rightarrow> error + jsstring"
  and js_join :: "'n number_ops \<Rightarrow> 'n json list \<Rightarrow> error + jsstring" where
  "js_String N JNull = Inr (U ''null'')"
| "js_String N (JBool b) = Inr (if b then U ''true'' else U ''false'')"
| "js_String N (JNum n) = Inr (num_String N n)"
| "js_String N (JStr s) = Inr s"
| "js_String N (JArr vs) = js_join N vs"
| "js_String N (JObj kvs) =
     (if U ''toString'' \<in> fst ` set kvs then Inl TypeError
      else Inr (U ''[object Object]''))"
| "js_join N [] = Inr []"
| "js_join N (v # vs) =
     (case (case v of JNull \<Rightarrow> Inr [] | _ \<Rightarrow> js_String N v) of
        Inl e \<Rightarrow> Inl e
      | Inr s \<Rightarrow>
          (if vs = [] then Inr s
           else (case js_join N vs of
                   Inl e \<Rightarrow> Inl e
                 | Inr r \<Rightarrow> Inr (s @ U '','' @ r))))"

text \<open>\<open>String(v.k)\<close>, where a missing property is \<open>undefined\<close>.\<close>

definition prop_String :: "'n number_ops \<Rightarrow> 'n json \<Rightarrow> jsstring \<Rightarrow> error + jsstring" where
  "prop_String N v k =
     (case get_prop v k of None \<Rightarrow> Inr (U ''undefined'') | Some w \<Rightarrow> js_String N w)"

text \<open>
  Sequencing of steps that may throw: the first exception ends the computation.
\<close>

definition bind_res :: "error + 'a \<Rightarrow> ('a \<Rightarrow> error + 'b) \<Rightarrow> error + 'b" where
  "bind_res m f = (case m of Inl e \<Rightarrow> Inl e | Inr a \<Rightarrow> f a)"

text \<open>\<open>xs.map(f)\<close> and \<open>xs.filter(p)\<close> where the callback may throw.\<close>

fun map_res :: "('a \<Rightarrow> error + 'b) \<Rightarrow> 'a list \<Rightarrow> error + 'b list" where
  "map_res f [] = Inr []"
| "map_res f (a # as) =
     bind_res (f a) (\<lambda>b. bind_res (map_res f as) (\<lambda>bs. Inr (b # bs)))"

fun filter_res :: "('a \<Rightarrow> error + bool) \<Rightarrow> 'a list \<Rightarrow> error + 'a list" where
  "filter_res p [] = Inr []"
| "filter_res p (a # as) =
     bind_res (p a) (\<lambda>b. bind_res (filter_res p as) (\<lambda>bs. Inr (if b then a # bs else bs)))"

section \<open>Shared helpers: validateFlowchart\<close>

text \<open>
  \<open>VALID_NODE_TYPES.has(n.type) ? n.type : "process"\<close>. The four type strings are the
  constructors of \<open>node_type\<close>; \<open>type_name\<close> gives the string back. A value that is not
  a string is never a member of the set.
\<close>

definition type_name :: "node_type \<Rightarrow> jsstring" where
  "type_name t = (case t of Process \<Rightarrow> U ''process'' | Decision \<Rightarrow> U ''decision''
                  | StartEnd \<Rightarrow> U ''startEnd'' | InputOutput \<Rightarrow> U ''inputOutput'')"

definition VALID_NODE_TYPES :: "jsstring list" where
  "VALID_NODE_TYPES = [U ''process'', U ''decision'', U ''startEnd'', U ''inputOutput'']"

definition type_of_name :: "jsstring \<Rightarrow> node_type" where
  "type_of_name s =
     (if s = U ''decision'' then Decision
      else if s = U ''startEnd'' then StartEnd
      else if s = U ''inputOutput'' then InputOutput
      else Process)"

definition coerce_type :: "'n json option \<Rightarrow> node_type" where
  "coerce_type v =
     (case v of
        Some (JStr s) \<Rightarrow> (if s \<in> set VALID_NODE_TYPES then type_of_name s else Process)
      | _ \<Rightarrow> Process)"

text \<open>\<open>typeof n.position?.x === "number" ? n.position.x : d\<close>, for the axis \<open>k\<close>.\<close>

definition axis :: "'n number_ops \<Rightarrow> 'n json \<Rightarrow> jsstring \<Rightarrow> int \<Rightarrow> 'n" where
  "axis N n k d =
     (case get_prop n (U ''position'') of
        None \<Rightarrow> num_lit N d
      | Some p \<Rightarrow> (case get_prop p k of Some (JNum v) \<Rightarrow> v | _ \<Rightarrow> num_lit N d))"

text \<open>\<open>n.data?.label\<close>.\<close>

definition data_label_of :: "'n json \<Rightarrow> 'n json option" where
  "data_label_of n =
     (case get_prop n (U ''data'') of None \<Rightarrow> None | Some d \<Rightarrow> get_prop d (U ''label''))"

text \<open>The filter of the node pass: \<open>n && n.id && n.data?.label\<close>.\<close>

definition keep_node :: "'n number_ops \<Rightarrow> 'n json \<Rightarrow> bool" where
  "keep_node N n \<longleftrightarrow>
     truthy N (Some n) \<and> truthy N (get_prop n (U ''id'')) \<and> truthy N (data_label_of n)"

text \<open>
  The callback of the node pass. It returns the string it adds to \<open>nodeIds\<close> and the
  node. \<open>n.data.label\<close> is read without \<open>?.\<close>: a missing or \<open>null\<close> \<open>data\<close> throws
  (\<open>read_label\<close> is \<open>String(n.data.label)\<close>).
\<close>

definition read_label :: "'n number_ops \<Rightarrow> 'n json \<Rightarrow> error + jsstring" where
  "read_label N n =
     (case get_prop n (U ''data'') of
        None \<Rightarrow> Inl TypeError
      | Some JNull \<Rightarrow> Inl TypeError
      | Some d \<Rightarrow> prop_String N d (U ''label''))"

definition sanitize_node ::
  "'n number_ops \<Rightarrow> 'n json \<Rightarrow> error + (jsstring \<times> 'n FlowchartNode)" where
  "sanitize_node N n =
     bind_res (prop_String N n (U ''id'')) (\<lambda>added.
     bind_res (prop_String N n (U ''id'')) (\<lambda>sid.
     bind_res (read_label N n) (\<lambda>l.
       Inr (added,
            \<lparr>node_id = sid,
             node_type = coerce_type (get_prop n (U ''type'')),
             position_x = axis N n (U ''x'') 250,
             position_y = axis N n (U ''y'') 0,
             data_label = take 40 l\<rparr>))))"

text \<open>The \<open>map\<close> of the node pass, threading the set \<open>nodeIds\<close> it fills.\<close>

fun map_nodes ::
  "'n number_ops \<Rightarrow> jsstring set \<Rightarrow> 'n json list \<Rightarrow>
   error + (jsstring set \<times> 'n FlowchartNode list)" where
  "map_nodes N nodeIds [] = Inr (nodeIds, [])"
| "map_nodes N nodeIds (n # ns) =
     bind_res (sanitize_node N n) (\<lambda>(added, node).
     bind_res (map_nodes N (insert added nodeIds) ns) (\<lambda>(nodeIds', rest).
       Inr (nodeIds', node # rest)))"

text \<open>
  The filter of the edge pass:
  \<open>e && e.source && e.target && nodeIds.has(String(e.source)) && nodeIds.has(String(e.target))\<close>,
  evaluated left to right and stopping at the first falsy operand.
\<close>

definition keep_edge :: "'n number_ops \<Rightarrow> jsstring set \<Rightarrow> 'n json \<Rightarrow> error + bool" where
  "keep_edge N nodeIds e =
     (if \<not> (truthy N (Some e) \<and> truthy N (get_prop e (U ''source''))
             \<and> truthy N (get_prop e (U ''target''))) then Inr False
      else bind_res (prop_String N e (U ''source'')) (\<lambda>s.
             if s \<notin> nodeIds then Inr False
             else bind_res (prop_String N e (U ''target'')) (\<lambda>t. Inr (t \<in> nodeIds))))"

text \<open>The callback of the edge pass.\<close>

definition sanitize_edge :: "'n number_ops \<Rightarrow> 'n json \<Rightarrow> error + FlowchartEdge" where
  "sanitize_edge N e =
     bind_res (if truthy N (get_prop e (U ''id'')) then prop_String N e (U ''id'')
               else bind_res (prop_String N e (U ''source'')) (\<lambda>s.
                    bind_res (prop_String N e (U ''target'')) (\<lambda>t.
                      Inr (U ''e-'' @ s @ U ''-'' @ t)))) (\<lambda>eid.
     bind_res (prop_String N e (U ''source'')) (\<lambda>s.
     bind_res (prop_String N e (U ''target'')) (\<lambda>t.
     bind_res (if truthy N (get_prop e (U ''label''))
               then bind_res (prop_String N e (U ''label'')) (\<lambda>l. Inr (Some l))
               else Inr None) (\<lambda>lab.
       Inr \<lparr>edge_id = eid, source = s, target = t, label = lab,
            animated = Some True\<rparr>))))"

text \<open>
  \<open>validateFlowchart\<close>: \<open>Inl TypeError\<close> when a conversion throws, \<open>Inr None\<close> for the
  result \<open>null\<close>, \<open>Inr (Some g)\<close> for an accepted graph.
\<close>

definition validateFlowchart ::
  "'n number_ops \<Rightarrow> 'n json \<Rightarrow> error + 'n AIGeneratedFlow option" where
  "validateFlowchart N data =
     (if \<not> truthy N (Some data) then Inr None
      else (case (get_prop data (U ''nodes''), get_prop data (U ''edges'')) of
              (Some (JArr raw_nodes), Some (JArr raw_edges)) \<Rightarrow>
                (if length raw_nodes = 0 then Inr None
                 else bind_res (map_nodes N {} (filter (keep_node N) raw_nodes))
                        (\<lambda>(nodeIds, ns).
                          if length ns = 0 then Inr None
                          else bind_res (filter_res (keep_edge N nodeIds) raw_edges) (\<lambda>kept.
                               bind_res (map_res (sanitize_edge N) kept) (\<lambda>es.
                                 Inr (Some \<lparr>nodes = ns, edges = es\<rparr>)))))
            | _ \<Rightarrow> Inr None))"

section \<open>Shared helpers: extractJSON\<close>

text \<open>
  \<open>JSON.parse\<close> is a parameter \<open>parse\<close> of the model: \<open>None\<close> when it throws a
  SyntaxError. The test \<open>parsed.nodes && parsed.edges\<close> throws on \<open>null\<close>, inside the
  same \<open>try\<close>, so \<open>null\<close> counts as a failure like a thrown SyntaxError.
\<close>

definition has_nodes_edges :: "'n number_ops \<Rightarrow> 'n json \<Rightarrow> bool" where
  "has_nodes_edges N v \<longleftrightarrow>
     (case v of
        JNull \<Rightarrow> False
      | _ \<Rightarrow> truthy N (get_prop v (U ''nodes'')) \<and> truthy N (get_prop v (U ''edges'')))"

definition try_parse ::
  "'n number_ops \<Rightarrow> (jsstring \<Rightarrow> 'n json option) \<Rightarrow> jsstring \<Rightarrow> 'n json option" where
  "try_parse N parse s =
     (case parse s of
        None \<Rightarrow> None
      | Some v \<Rightarrow> (if has_nodes_edges N v then Some v else None))"

text \<open>\<open>s.indexOf(sub)\<close>, \<open>None\<close> for \<open>-1\<close>.\<close>

fun index_of :: "jsstring \<Rightarrow> jsstring \<Rightarrow> nat option" where
  "index_of [] sub = (if sub = [] then Some 0 else None)"
| "index_of (c # cs) sub =
     (if prefix sub (c # cs) then Some 0
      else (case index_of cs sub of None \<Rightarrow> None | Some i \<Rightarrow> Some (Suc i)))"

definition fence :: jsstring where
  "fence = [0x60, 0x60, 0x60]"

definition quoted_nodes :: jsstring where
  "quoted_nodes = [0x22] @ U ''nodes'' @ [0x22]"

text \<open>
  The first capture group of the regular expression of strategy 2: three backticks,
  an optional \<open>json\<close>, white space \<^verbatim>\<open>\s*\<close>, an optional line feed, a lazy group of any
  characters, three backticks. A match starts at the leftmost fence that has another
  fence after it (the optional parts contain no backtick, so they never decide whether a
  match exists). There the greedy parts take \<open>json\<close> when it follows and then all white
  space (which leaves no line feed for \<^verbatim>\<open>\n?\<close>), and the lazy group stops at the next
  fence.
\<close>

definition fence_match :: "jsstring \<Rightarrow> jsstring option" where
  "fence_match raw =
     (case index_of raw fence of
        None \<Rightarrow> None
      | Some s \<Rightarrow>
          (let r1 = drop (s + 3) raw;
               r2 = (if prefix (U ''json'') r1 then drop 4 r1 else r1);
               r3 = dropWhile is_ws r2
           in (case index_of r3 fence of None \<Rightarrow> None | Some e \<Rightarrow> Some (take e r3))))"

text \<open>
  Whether the regular expression of strategy 3 matches: an opening brace, later the
  text \<open>"nodes"\<close> with its quotes, later a closing brace.
\<close>

definition brace_match :: "jsstring \<Rightarrow> bool" where
  "brace_match raw =
     (case index_of raw (U ''{'') of
        None \<Rightarrow> False
      | Some a \<Rightarrow>
          (let r1 = drop (a + 1) raw
           in (case index_of r1 quoted_nodes of
                 None \<Rightarrow> False
               | Some b \<Rightarrow> js_includes (drop (b + 7) r1) (U ''}''))))"

text \<open>
  The \<open>for\<close> loop of strategy 3, from index \<open>i\<close> with the current \<open>depth\<close> and \<open>start\<close>
  (\<open>-1\<close> before the first opening brace). \<open>raw.slice(start, i + 1)\<close> is the candidate.
\<close>

function scan ::
  "'n number_ops \<Rightarrow> (jsstring \<Rightarrow> 'n json option) \<Rightarrow> jsstring \<Rightarrow> nat \<Rightarrow> int \<Rightarrow> int \<Rightarrow>
   'n json option" where
  "scan N parse raw i depth start =
     (if i < length raw then
        (if raw ! i = 0x7B then
           scan N parse raw (i + 1) (depth + 1) (if depth = 0 then int i else start)
         else if raw ! i = 0x7D then
           (if depth - 1 = 0 \<and> start \<ge> 0 then
              (let candidate = take (i + 1 - nat start) (drop (nat start) raw)
               in if js_includes candidate quoted_nodes then
                    (case try_parse N parse candidate of
                       Some v \<Rightarrow> Some v
                     | None \<Rightarrow> scan N parse raw (i + 1) (depth - 1) start)
                  else scan N parse raw (i + 1) (depth - 1) start)
            else scan N parse raw (i + 1) (depth - 1) start)
         else scan N parse raw (i + 1) depth start)
      else None)"
  by pat_completeness auto
termination
  by (relation "measure (\<lambda>(N, parse, raw, i, depth, start). length raw - i)") auto

declare scan.simps [simp del]

definition extractJSON ::
  "'n number_ops \<Rightarrow> (jsstring \<Rightarrow> 'n json option) \<Rightarrow> jsstring \<Rightarrow> 'n json option" where
  "extractJSON N parse raw =
     (if raw = [] then None
      else (case try_parse N parse (trim raw) of
              Some v \<Rightarrow> Some v
            | None \<Rightarrow>
                (case (case fence_match raw of
                         None \<Rightarrow> None
                       | Some inner \<Rightarrow> try_parse N parse (trim inner)) of
                   Some v \<Rightarrow> Some v
                 | None \<Rightarrow>
                     (if brace_match raw then scan N parse raw 0 0 (- 1) else None))))"

section \<open>Provider adapters\<close>

text \<open>
  The two credentials of \<open>process.env\<close>, and what one bounded request yields once the
  adapter has read \<open>data.choices?.[0]?.message?.content\<close>: \<open>Failed\<close> stands for every
  exception up to that point (network error, the 30 s abort, an undecodable body),
  \<open>NotOk\<close> for a response whose \<open>ok\<close> flag is false, \<open>Content c\<close> for the value read
  (\<open>None\<close> when it is \<open>undefined\<close>). The network is a parameter \<open>fetch\<close> of the model,
  called with the URL, the key, the model name, the prompt and the diagram type.
\<close>

record env =
  NVIDIA_NIM_API_KEY :: "jsstring option"
  KIMI_API_KEY :: "jsstring option"

datatype 'n fetched = Failed | NotOk | Content "'n json option"

type_synonym 'n fetcher =
  "jsstring \<Rightarrow> jsstring \<Rightarrow> jsstring \<Rightarrow> jsstring \<Rightarrow> jsstring \<Rightarrow> 'n fetched"

text \<open>
  What both adapters do with the content: a falsy content, a content that is not a
  string, a failed extraction, a rejected graph and an exception of the sanitizer
  (caught by the adapter) all give \<open>null\<close>.
\<close>

definition handle_content ::
  "'n number_ops \<Rightarrow> (jsstring \<Rightarrow> 'n json option) \<Rightarrow> 'n json option \<Rightarrow>
   'n AIGeneratedFlow option" where
  "handle_content N parse content =
     (if \<not> truthy N content then None
      else (case content of
              Some (JStr s) \<Rightarrow>
                (case extractJSON N parse s of
                   None \<Rightarrow> None
                 | Some extracted \<Rightarrow>
                     (case validateFlowchart N extracted of
                        Inl e \<Rightarrow> None
                      | Inr None \<Rightarrow> None
                      | Inr (Some validated) \<Rightarrow> Some validated))
            | _ \<Rightarrow> None))"

definition callNvidiaNIM ::
  "'n number_ops \<Rightarrow> (jsstring \<Rightarrow> 'n json option) \<Rightarrow> env \<Rightarrow> 'n fetcher \<Rightarrow>
   jsstring \<Rightarrow> jsstring \<Rightarrow> jsstring \<Rightarrow> 'n AIGeneratedFlow option" where
  "callNvidiaNIM N parse ev fetch prompt diagramType model =
     (case NVIDIA_NIM_API_KEY ev of
        None \<Rightarrow> None
      | Some apiKey \<Rightarrow>
          (if apiKey = [] then None
           else (case fetch (U ''https://integrate.api.nvidia.com/v1/chat/completions'')
                        apiKey model prompt diagramType of
                   Failed \<Rightarrow> None
                 | NotOk \<Rightarrow> None
                 | Content c \<Rightarrow> handle_content N parse c)))"

definition callKimi ::
  "'n number_ops \<Rightarrow> (jsstring \<Rightarrow> 'n json option) \<Rightarrow> env \<Rightarrow> 'n fetcher \<Rightarrow>
   jsstring \<Rightarrow> jsstring \<Rightarrow> 'n AIGeneratedFlow option" where
  "callKimi N parse ev fetch prompt diagramType =
     (case KIMI_API_KEY ev of
        None \<Rightarrow> None
      | Some apiKey \<Rightarrow>
          (if apiKey = [] then None
           else (case fetch (U ''https://api.moonshot.ai/v1/chat/completions'')
                        apiKey (U ''moonshot-v1-8k'') prompt diagramType of
                   Failed \<Rightarrow> None
                 | NotOk \<Rightarrow> None
                 | Content c \<Rightarrow> handle_content N parse c)))"

section \<open>POST handler\<close>

text \<open>
  The decoded request body, \<open>None\<close> when \<open>request.json()\<close> throws. The response is the
  success payload (nodes, edges, prompt, diagram type, \<open>usedAI\<close>), the 400 answer
  "Prompt is required", or the 500 answer of the outer \<open>catch\<close>.
\<close>

record GenerateRequest =
  req_prompt :: jsstring
  req_diagramType :: jsstring

datatype 'n response =
    Success "'n FlowchartNode list" "FlowchartEdge list" jsstring jsstring jsstring
  | BadRequest
  | ServerError

definition POST ::
  "'n number_ops \<Rightarrow> (jsstring \<Rightarrow> 'n json option) \<Rightarrow> env \<Rightarrow> 'n fetcher \<Rightarrow>
   GenerateRequest option \<Rightarrow> 'n response" where
  "POST N parse ev fetch body =
     (case body of
        None \<Rightarrow> ServerError
      | Some req \<Rightarrow>
          (let prompt = req_prompt req; diagramType = req_diagramType req
           in if prompt = [] then BadRequest
              else (case callNvidiaNIM N parse ev fetch prompt diagramType (U ''z-ai/glm4.7'') of
                      Some flowchart \<Rightarrow>
                        Success (nodes flowchart) (edges flowchart) prompt diagramType
                          (U ''nvidia-nim'')
                    | None \<Rightarrow>
                        (case callNvidiaNIM N parse ev fetch prompt diagramType
                                (U ''moonshotai/kimi-k2-instruct'') of
                           Some flowchart \<Rightarrow>
                             Success (nodes flowchart) (edges flowchart) prompt diagramType
                               (U ''kimi-via-nim'')
                         | None \<Rightarrow>
                             (case callKimi N parse ev fetch prompt diagramType of
                                Some flowchart \<Rightarrow>
                                  Success (nodes flowchart) (edges flowchart) prompt
                                    diagramType (U ''kimi'')
                              | None \<Rightarrow>
                                  (let flowchart = generateLocalFlowchart N prompt diagramType
                                   in Success (nodes flowchart) (edges flowchart) prompt
                                        diagramType (U ''local'')))))))"

section \<open>Notions used in the statements\<close>

text \<open>A concrete instance of the number primitives, on integers, for closed examples.\<close>

definition int_ops :: "int number_ops" where
  "int_ops = \<lparr>num_String = (\<lambda>n. if n < 0 then U ''-'' @ nat_String (nat (- n))
                                  else nat_String (nat n)),
              num_truthy = (\<lambda>n. n \<noteq> 0),
              num_lit = (\<lambda>i. i)\<rparr>"

text \<open>
  The Graph invariants of the data model: at least one node, every edge between
  identifiers of the node list, every edge animated.
\<close>

definition graph_invariants :: "'n AIGeneratedFlow \<Rightarrow> bool" where
  "graph_invariants g \<longleftrightarrow>
     nodes g \<noteq> [] \<and>
     (\<forall>e \<in> set (edges g).
        source e \<in> node_id ` set (nodes g) \<and> target e \<in> node_id ` set (nodes g)) \<and>
     (\<forall>e \<in> set (edges g). animated e = Some True)"

text \<open>The invariant of the loop of the local generator.\<close>

definition loop_inv :: "'n loop_state \<Rightarrow> bool" where
  "loop_inv st \<longleftrightarrow>
     lastNodeId st \<in> node_id ` set (st_nodes st) \<and>
     (\<forall>e \<in> set (st_edges st).
        source e \<in> node_id ` set (st_nodes st) \<and> target e \<in> node_id ` set (st_nodes st) \<and>
        animated e = Some True)"

text \<open>
  The values the loop counter takes from \<open>i\<close> on: the indices of the parts the loop
  turns into a step. The part after a decision step is not among them.
\<close>

function visited :: "jsstring list \<Rightarrow> nat \<Rightarrow> nat list" where
  "visited parts i =
     (if i < min (length parts) 8 then
        i # (if isDecision (parts ! i) \<and> i + 1 < length parts
             then visited parts (i + 2) else visited parts (i + 1))
      else [])"
  by pat_completeness auto
termination
  by (relation "measure (\<lambda>(parts, i). min (length parts) 8 - i)") auto

declare visited.simps [simp del]

text \<open>
  The object \<open>validateFlowchart\<close> returns, seen again as an untyped value: this is what
  a second call receives.
\<close>

definition node_json :: "'n FlowchartNode \<Rightarrow> 'n json" where
  "node_json y =
     JObj [(U ''id'', JStr (node_id y)),
           (U ''type'', JStr (type_name (node_type y))),
           (U ''position'', JObj [(U ''x'', JNum (position_x y)), (U ''y'', JNum (position_y y))]),
           (U ''data'', JObj [(U ''label'', JStr (data_label y))])]"

definition edge_json :: "FlowchartEdge \<Rightarrow> 'n json" where
  "edge_json e =
     JObj ([(U ''id'', JStr (edge_id e)),
            (U ''source'', JStr (source e)),
            (U ''target'', JStr (target e))]
           @ (case label e of None \<Rightarrow> [] | Some l \<Rightarrow> [(U ''label'', JStr l)])
           @ (case animated e of None \<Rightarrow> [] | Some b \<Rightarrow> [(U ''animated'', JBool b)]))"

definition flow_json :: "'n AIGeneratedFlow \<Rightarrow> 'n json" where
  "flow_json g =
     JObj [(U ''nodes'', JArr (map node_json (nodes g))),
           (U ''edges'', JArr (map edge_json (edges g)))]"

text \<open>
  What the node pass promises of a raw entry \<open>n\<close> that is kept and of its node \<open>y\<close>, in
  the words of the specification: the identifier is the string form of \<open>n.id\<close>; the kind
  is the given one when it is one of the four names and \<open>process\<close> otherwise; each axis
  is the given number, or its default (250 for x, 0 for y) when \<open>n.position\<close> has no
  number there; the label is the string form of \<open>n.data.label\<close> cut to 40 code units.
\<close>

definition axis_value :: "'n json \<Rightarrow> jsstring \<Rightarrow> 'n json option" where
  "axis_value n k =
     (case get_prop n (U ''position'') of None \<Rightarrow> None | Some p \<Rightarrow> get_prop p k)"

definition sanitized_from :: "'n number_ops \<Rightarrow> 'n json \<Rightarrow> 'n FlowchartNode \<Rightarrow> bool" where
  "sanitized_from N n y \<longleftrightarrow>
     (case get_prop n (U ''id'') of
        None \<Rightarrow> False
      | Some v \<Rightarrow> js_String N v = Inr (node_id y)) \<and>
     (case get_prop n (U ''type'') of
        Some (JStr s) \<Rightarrow>
          (if s \<in> set VALID_NODE_TYPES then type_name (node_type y) = s
           else node_type y = Process)
      | _ \<Rightarrow> node_type y = Process) \<and>
     position_x y = (case axis_value n (U ''x'') of Some (JNum v) \<Rightarrow> v | _ \<Rightarrow> num_lit N 250) \<and>
     position_y y = (case axis_value n (U ''y'') of Some (JNum v) \<Rightarrow> v | _ \<Rightarrow> num_lit N 0) \<and>
     (case data_label_of n of
        None \<Rightarrow> False
      | Some v \<Rightarrow>
          (case js_String N v of Inl e \<Rightarrow> False | Inr l \<Rightarrow> data_label y = take 40 l)) \<and>
     length (data_label y) \<le> 40"

text \<open>Decoded payloads for closed examples, and the graph the first one is turned into.\<close>

definition example_raw :: "int json" where
  "example_raw =
     JObj [(U ''nodes'', JArr [
              JObj [(U ''id'', JStr (U ''a'')), (U ''type'', JStr (U ''startEnd'')),
                    (U ''position'', JObj [(U ''x'', JNum 10), (U ''y'', JNum 20)]),
                    (U ''data'', JObj [(U ''label'', JStr (U ''Start''))])],
              JObj [(U ''id'', JNum 2), (U ''type'', JStr (U ''oval'')),
                    (U ''position'', JObj [(U ''x'', JStr (U ''left''))]),
                    (U ''data'', JObj [(U ''label'', JStr (U ''Step''))])],
              JObj [(U ''id'', JStr (U ''c''))]]),
           (U ''edges'', JArr [
              JObj [(U ''source'', JStr (U ''a'')), (U ''target'', JNum 2)],
              JObj [(U ''id'', JStr (U ''e2'')), (U ''source'', JStr (U ''a'')),
                    (U ''target'', JStr (U ''c'')), (U ''label'', JStr (U ''x''))]])]"

definition example_graph :: "int AIGeneratedFlow" where
  "example_graph =
     \<lparr>nodes = [\<lparr>node_id = U ''a'', node_type = StartEnd, position_x = 10, position_y = 20,
                data_label = U ''Start''\<rparr>,
               \<lparr>node_id = U ''2'', node_type = Process, position_x = 250, position_y = 0,
                data_label = U ''Step''\<rparr>],
      edges = [\<lparr>edge_id = U ''e-a-2'', source = U ''a'', target = U ''2'', label = None,
                animated = Some True\<rparr>]\<rparr>"

definition example_unlabelled :: "int json" where
  "example_unlabelled =
     JObj [(U ''nodes'', JArr [JObj [(U ''id'', JStr (U ''c''))], JNull]),
           (U ''edges'', JArr [])]"

definition example_array_id :: "int json" where
  "example_array_id =
     JObj [(U ''nodes'', JArr [JObj [(U ''id'', JArr []),
                                      (U ''data'', JObj [(U ''label'', JStr (U ''a''))])]]),
           (U ''edges'', JArr [])]"

text \<open>
  A payload wrapped in a fence, as in the example of the specification: three
  backticks, the tag \<open>json\<close> or nothing, a line feed, the payload, a line feed, three
  backticks.
\<close>

definition fenced :: "bool \<Rightarrow> jsstring \<Rightarrow> jsstring" where
  "fenced tagged p = fence @ (if tagged then U ''json'' else []) @ [0xA] @ p @ [0xA] @ fence"

text \<open>
  The two facts about \<open>JSON.parse\<close> that the fencing statement relies on: it throws on
  the empty text and on every text that begins with a backtick.
\<close>

definition rejects_non_json :: "(jsstring \<Rightarrow> 'n json option) \<Rightarrow> bool" where
  "rejects_non_json parse \<longleftrightarrow> parse [] = None \<and> (\<forall>s. parse (0x60 # s) = None)"

text \<open>
  A payload without backticks and its decoded value. \<open>example_parse\<close> is \<open>JSON.parse\<close> cut
  down to this one text: the only other texts the examples pass to it are empty or
  begin with a backtick.
\<close>

definition example_payload :: jsstring where
  \<open>example_payload = U ''{"nodes":[{"id":"a","data":{"label":"A"}}],"edges":[]}''\<close>

definition example_value :: "int json" where
  "example_value =
     JObj [(U ''nodes'', JArr [JObj [(U ''id'', JStr (U ''a'')),
                                      (U ''data'', JObj [(U ''label'', JStr (U ''A''))])]]),
           (U ''edges'', JArr [])]"

definition example_parse :: "jsstring \<Rightarrow> int json option" where
  "example_parse s = (if s = example_payload then Some example_value else None)"

text \<open>
  A payload whose label is a closing brace followed by three backticks, and its decoded
  value. \<open>tricky_parse\<close> is \<open>JSON.parse\<close> cut down to this one text: the other texts the
  example passes to it are the fenced text (it begins with a backtick), the payload cut
  at the backticks of the label (an unterminated string), and the candidate of the
  scan that ends at the second brace after the label (an unclosed array), none of which
  is valid JSON.
\<close>

definition tricky_payload :: jsstring where
  \<open>tricky_payload = U ''{"nodes":[{"id":"a","data":{"label":"}```"}}],"edges":[]}''\<close>

definition tricky_value :: "int json" where
  "tricky_value =
     JObj [(U ''nodes'', JArr [JObj [(U ''id'', JStr (U ''a'')),
                                      (U ''data'', JObj [(U ''label'', JStr (U ''}```''))])]]),
           (U ''edges'', JArr [])]"

definition tricky_parse :: "jsstring \<Rightarrow> int json option" where
  "tricky_parse s = (if s = tricky_payload then Some tricky_value else None)"


section \<open>Properties of the local generator\<close>

lemmas local_eval =
  generateLocalFlowchart_def split_parts_def split_seps_def U_def trim_def is_ws_def
  loop.simps isDecision_def decision_step_def plain_step_def nat_String.simps Let_def
  plain_edge_def labelled_edge_def skeleton_def strip_parens_def

lemma loop_done: "\<not> i < min (length parts) 8 \<Longrightarrow> loop N parts i st = st"
  by (subst loop.simps) (simp only: if_False)

lemma loop_dec:
  "i < min (length parts) 8 \<Longrightarrow> isDecision (parts ! i) \<and> i + 1 < length parts \<Longrightarrow>
   loop N parts i st = loop N parts (i + 2) (decision_step N parts i st)"
  by (subst loop.simps) (simp only: simp_thms if_True)

lemma loop_plain:
  "i < min (length parts) 8 \<Longrightarrow> \<not> (isDecision (parts ! i) \<and> i + 1 < length parts) \<Longrightarrow>
   loop N parts i st = loop N parts (i + 1) (plain_step N parts i st)"
  by (subst loop.simps) (simp only: simp_thms if_True if_False)

lemma inv_decision: "loop_inv st \<Longrightarrow> loop_inv (decision_step N parts i st)"
  by (auto simp: loop_inv_def decision_step_def Let_def plain_edge_def labelled_edge_def)

lemma inv_plain: "loop_inv st \<Longrightarrow> loop_inv (plain_step N parts i st)"
  by (auto simp: loop_inv_def plain_step_def Let_def plain_edge_def)

lemma inv_loop: "loop_inv st \<Longrightarrow> loop_inv (loop N parts i st)"
proof (induction N parts i st rule: loop.induct)
  case (1 N parts i st)
  show ?case
  proof (cases "i < min (length parts) 8")
    case False
    with 1(3) show ?thesis by (simp add: loop_done[OF False])
  next
    case True
    show ?thesis
    proof (cases "isDecision (parts ! i) \<and> i + 1 < length parts")
      case dec: True
      have "loop_inv (loop N parts (i + 2) (decision_step N parts i st))"
        using 1(1)[OF True dec] 1(3) by (simp add: inv_decision)
      then show ?thesis by (simp add: loop_dec[OF True dec])
    next
      case nodec: False
      have "loop_inv (loop N parts (i + 1) (plain_step N parts i st))"
        using 1(2)[OF True nodec] 1(3) by (simp add: inv_plain)
      then show ?thesis by (simp add: loop_plain[OF True nodec])
    qed
  qed
qed

lemma loop_nodes_nonempty: "st_nodes st \<noteq> [] \<Longrightarrow> st_nodes (loop N parts i st) \<noteq> []"
proof (induction N parts i st rule: loop.induct)
  case (1 N parts i st)
  show ?case
  proof (cases "i < min (length parts) 8")
    case False
    with 1(3) show ?thesis by (simp add: loop_done[OF False])
  next
    case True
    show ?thesis
    proof (cases "isDecision (parts ! i) \<and> i + 1 < length parts")
      case dec: True
      have "st_nodes (loop N parts (i + 2) (decision_step N parts i st)) \<noteq> []"
        using 1(1)[OF True dec] by (simp add: decision_step_def Let_def)
      then show ?thesis by (simp add: loop_dec[OF True dec])
    next
      case nodec: False
      have "st_nodes (loop N parts (i + 1) (plain_step N parts i st)) \<noteq> []"
        using 1(2)[OF True nodec] by (simp add: plain_step_def Let_def)
      then show ?thesis by (simp add: loop_plain[OF True nodec])
    qed
  qed
qed

lemma local_invariants: "graph_invariants (generateLocalFlowchart N prompt t)"
proof (cases "length (split_parts prompt) \<ge> 3")
  case False
  then show ?thesis
    by (simp add: generateLocalFlowchart_def skeleton_def graph_invariants_def)
next
  case True
  let ?st0 = "\<lparr>st_nodes = [\<lparr>node_id = U ''start'', node_type = StartEnd,
                                position_x = num_lit N 250, position_y = num_lit N 0,
                                data_label = take 25 (strip_parens (split_parts prompt ! 0))\<rparr>],
                   st_edges = [], currentY = 120, lastNodeId = U ''start''\<rparr>"
  have "loop_inv ?st0" by (simp add: loop_inv_def)
  then have "loop_inv (loop N (split_parts prompt) 1 ?st0)" by (rule inv_loop)
  moreover have "st_nodes (loop N (split_parts prompt) 1 ?st0) \<noteq> []"
    by (rule loop_nodes_nonempty) simp
  ultimately show ?thesis using True
    by (simp add: generateLocalFlowchart_def graph_invariants_def loop_inv_def Let_def)
qed

lemma no_credentials_skip:
  assumes "NVIDIA_NIM_API_KEY ev = None" and "KIMI_API_KEY ev = None"
  shows "callNvidiaNIM N parse ev fetch prompt diagramType model = None"
    and "callKimi N parse ev fetch prompt diagramType = None"
  using assms by (simp_all add: callNvidiaNIM_def callKimi_def)

text \<open>
  C1. For a decoded request with a non-empty prompt, when no credential is configured,
  or more generally when the two NVIDIA NIM attempts and the Kimi attempt all yield
  none, the handler answers with the graph of the local generator and the provenance
  tag \<open>local\<close>, and that graph has at least one node, only edges between its own node
  identifiers, and only animated edges.
\<close>

theorem orchestrator_falls_back_to_local:
  assumes "req_prompt req \<noteq> []"
    and "(NVIDIA_NIM_API_KEY ev = None \<and> KIMI_API_KEY ev = None) \<or>
         (callNvidiaNIM N parse ev fetch (req_prompt req) (req_diagramType req)
            (U ''z-ai/glm4.7'') = None \<and>
          callNvidiaNIM N parse ev fetch (req_prompt req) (req_diagramType req)
            (U ''moonshotai/kimi-k2-instruct'') = None \<and>
          callKimi N parse ev fetch (req_prompt req) (req_diagramType req) = None)"
  shows "POST N parse ev fetch (Some req) =
           Success (nodes (generateLocalFlowchart N (req_prompt req) (req_diagramType req)))
                   (edges (generateLocalFlowchart N (req_prompt req) (req_diagramType req)))
                   (req_prompt req) (req_diagramType req) (U ''local'')
         \<and> graph_invariants (generateLocalFlowchart N (req_prompt req) (req_diagramType req))"
proof -
  have none:
    "callNvidiaNIM N parse ev fetch (req_prompt req) (req_diagramType req)
       (U ''z-ai/glm4.7'') = None"
    "callNvidiaNIM N parse ev fetch (req_prompt req) (req_diagramType req)
       (U ''moonshotai/kimi-k2-instruct'') = None"
    "callKimi N parse ev fetch (req_prompt req) (req_diagramType req) = None"
    using assms(2) no_credentials_skip[of ev] by blast+
  have "POST N parse ev fetch (Some req) =
           Success (nodes (generateLocalFlowchart N (req_prompt req) (req_diagramType req)))
                   (edges (generateLocalFlowchart N (req_prompt req) (req_diagramType req)))
                   (req_prompt req) (req_diagramType req) (U ''local'')"
    using assms(1) none by (simp add: POST_def Let_def)
  then show ?thesis using local_invariants by blast
qed

theorem orchestrator_falls_back_to_local_witness:
  "POST int_ops (\<lambda>s. None) \<lparr>NVIDIA_NIM_API_KEY = None, KIMI_API_KEY = None\<rparr>
        (\<lambda>url key model prompt diagramType. Failed)
        (Some \<lparr>req_prompt = U ''launch product'', req_diagramType = U ''process''\<rparr>) =
     Success (nodes (generateLocalFlowchart int_ops (U ''launch product'') (U ''process'')))
             (edges (generateLocalFlowchart int_ops (U ''launch product'') (U ''process'')))
             (U ''launch product'') (U ''process'') (U ''local'')
   \<and> graph_invariants (generateLocalFlowchart int_ops (U ''launch product'') (U ''process''))"
  using orchestrator_falls_back_to_local
          [of "\<lparr>req_prompt = U ''launch product'', req_diagramType = U ''process''\<rparr>"
              "\<lparr>NVIDIA_NIM_API_KEY = None, KIMI_API_KEY = None\<rparr>"
              int_ops "\<lambda>s. None" "\<lambda>url key model prompt diagramType. Failed"]
  by (simp add: U_def)

text \<open>
  C9. The diagram type given to the local generator does not influence its result.
\<close>

theorem generateLocalFlowchart_ignores_type:
  "generateLocalFlowchart N prompt t1 = generateLocalFlowchart N prompt t2"
  by (simp add: generateLocalFlowchart_def)

lemma loop_mono:
  "set (st_nodes st) \<subseteq> set (st_nodes (loop N parts i st)) \<and>
   set (st_edges st) \<subseteq> set (st_edges (loop N parts i st))"
proof (induction N parts i st rule: loop.induct)
  case (1 N parts i st)
  show ?case
  proof (cases "i < min (length parts) 8")
    case False
    show ?thesis by (simp add: loop_done[OF False])
  next
    case True
    show ?thesis
    proof (cases "isDecision (parts ! i) \<and> i + 1 < length parts")
      case dec: True
      have "set (st_nodes st) \<subseteq> set (st_nodes (decision_step N parts i st))"
           "set (st_edges st) \<subseteq> set (st_edges (decision_step N parts i st))"
        by (auto simp: decision_step_def Let_def)
      with 1(1)[OF True dec] show ?thesis
        unfolding loop_dec[OF True dec] by blast
    next
      case nodec: False
      have "set (st_nodes st) \<subseteq> set (st_nodes (plain_step N parts i st))"
           "set (st_edges st) \<subseteq> set (st_edges (plain_step N parts i st))"
        by (auto simp: plain_step_def Let_def)
      with 1(2)[OF True nodec] show ?thesis
        unfolding loop_plain[OF True nodec] by blast
    qed
  qed
qed

lemma visited_done: "\<not> i < min (length parts) 8 \<Longrightarrow> visited parts i = []"
  by (subst visited.simps) (simp only: if_False)

lemma visited_dec:
  "i < min (length parts) 8 \<Longrightarrow> isDecision (parts ! i) \<and> i + 1 < length parts \<Longrightarrow>
   visited parts i = i # visited parts (i + 2)"
  by (subst visited.simps) (simp only: simp_thms if_True)

lemma visited_plain:
  "i < min (length parts) 8 \<Longrightarrow> \<not> (isDecision (parts ! i) \<and> i + 1 < length parts) \<Longrightarrow>
   visited parts i = i # visited parts (i + 1)"
  by (subst visited.simps) (simp only: simp_thms if_True if_False)

lemma visited_decision:
  "i \<in> set (visited parts j) \<Longrightarrow> isDecision (parts ! i) \<and> i + 1 < length parts \<Longrightarrow>
   \<exists>st'. set (st_nodes (decision_step N parts i st')) \<subseteq> set (st_nodes (loop N parts j st)) \<and>
         set (st_edges (decision_step N parts i st')) \<subseteq> set (st_edges (loop N parts j st))"
proof (induction N parts j st rule: loop.induct)
  case (1 N parts j st)
  show ?case
  proof (cases "j < min (length parts) 8")
    case False
    then have "visited parts j = []" by (rule visited_done)
    with 1(3) show ?thesis by simp
  next
    case True
    show ?thesis
    proof (cases "i = j")
      case True
      with 1(4) have dec: "isDecision (parts ! j) \<and> j + 1 < length parts" by simp
      show ?thesis
        unfolding loop_dec[OF \<open>j < min (length parts) 8\<close> dec] \<open>i = j\<close>
        using loop_mono by blast
    next
      case ne: False
      show ?thesis
      proof (cases "isDecision (parts ! j) \<and> j + 1 < length parts")
        case dec: True
        have "visited parts j = j # visited parts (j + 2)"
          using True dec by (rule visited_dec)
        with 1(3) ne have "i \<in> set (visited parts (j + 2))" by simp
        from 1(1)[OF True dec this 1(4)] show ?thesis
          unfolding loop_dec[OF True dec] .
      next
        case nodec: False
        have "visited parts j = j # visited parts (j + 1)"
          using True nodec by (rule visited_plain)
        with 1(3) ne have "i \<in> set (visited parts (j + 1))" by simp
        from 1(2)[OF True nodec this 1(4)] show ?thesis
          unfolding loop_plain[OF True nodec] .
      qed
    qed
  qed
qed

text \<open>
  C7, as the code has it. When the prompt has at least three parts, a part at an index
  \<open>i\<close> that the loop reaches (from 1, below the cap of 8, and not the part right after a
  decision step), whose text contains \<open>check\<close>, \<open>verify\<close>, \<open>validate\<close>, \<open>if \<close> or \<open>?\<close> and
  which is not the last part, yields a decision node \<open>step-i\<close>, the process nodes
  \<open>step-i-yes\<close> (Continue) and \<open>step-i-no\<close> (Handle), a merge node \<open>merge-i\<close>, the edges
  labelled Yes and No from the decision node to the two lanes, and the edges from both
  lanes to the merge node. The prompt "visit site, verify email, create profile" is the
  instance \<open>i = 1\<close>.
\<close>

theorem decision_step_fans_out:
  assumes "length (split_parts prompt) \<ge> 3"
    and "i \<in> set (visited (split_parts prompt) 1)"
    and "isDecision (split_parts prompt ! i)"
    and "i + 1 < length (split_parts prompt)"
  shows "let g = generateLocalFlowchart N prompt t;
             parts = split_parts prompt;
             stepId = U ''step-'' @ nat_String i;
             yesId = stepId @ U ''-yes'';
             noId = stepId @ U ''-no'';
             mergeId = U ''merge-'' @ nat_String i
         in (\<exists>n \<in> set (nodes g). node_id n = stepId \<and> node_type n = Decision \<and>
                data_label n = take 25 (strip_parens (parts ! i))) \<and>
            (\<exists>n \<in> set (nodes g). node_id n = yesId \<and> node_type n = Process \<and>
                data_label n = U ''Continue'') \<and>
            (\<exists>n \<in> set (nodes g). node_id n = noId \<and> node_type n = Process \<and>
                data_label n = U ''Handle'') \<and>
            (\<exists>n \<in> set (nodes g). node_id n = mergeId \<and>
                node_type n = (if i + 2 = length parts then StartEnd else Process)) \<and>
            labelled_edge stepId yesId (U ''Yes'') \<in> set (edges g) \<and>
            labelled_edge stepId noId (U ''No'') \<in> set (edges g) \<and>
            plain_edge yesId mergeId \<in> set (edges g) \<and>
            plain_edge noId mergeId \<in> set (edges g)"
proof -
  let ?parts = "split_parts prompt"
  let ?st0 = "\<lparr>st_nodes = [\<lparr>node_id = U ''start'', node_type = StartEnd,
                                position_x = num_lit N 250, position_y = num_lit N 0,
                                data_label = take 25 (strip_parens (?parts ! 0))\<rparr>],
                   st_edges = [], currentY = 120, lastNodeId = U ''start''\<rparr>"
  let ?g = "generateLocalFlowchart N prompt t"
  have g: "nodes ?g = st_nodes (loop N ?parts 1 ?st0)" "edges ?g = st_edges (loop N ?parts 1 ?st0)"
    using assms(1) by (simp_all add: generateLocalFlowchart_def Let_def)
  obtain st' where sub:
    "set (st_nodes (decision_step N ?parts i st')) \<subseteq> set (nodes ?g)"
    "set (st_edges (decision_step N ?parts i st')) \<subseteq> set (edges ?g)"
    using visited_decision[OF assms(2), of N ?st0] assms(3,4) unfolding g by blast
  have n1: "\<exists>n \<in> set (st_nodes (decision_step N ?parts i st')).
              node_id n = U ''step-'' @ nat_String i \<and> node_type n = Decision \<and>
              data_label n = take 25 (strip_parens (?parts ! i))"
    by (simp add: decision_step_def Let_def)
  have n2: "\<exists>n \<in> set (st_nodes (decision_step N ?parts i st')).
              node_id n = (U ''step-'' @ nat_String i) @ U ''-yes'' \<and> node_type n = Process \<and>
              data_label n = U ''Continue''"
    by (simp add: decision_step_def Let_def)
  have n3: "\<exists>n \<in> set (st_nodes (decision_step N ?parts i st')).
              node_id n = (U ''step-'' @ nat_String i) @ U ''-no'' \<and> node_type n = Process \<and>
              data_label n = U ''Handle''"
    by (simp add: decision_step_def Let_def)
  have n4: "\<exists>n \<in> set (st_nodes (decision_step N ?parts i st')).
              node_id n = U ''merge-'' @ nat_String i \<and>
              node_type n = (if i + 2 = length ?parts then StartEnd else Process)"
    by (simp add: decision_step_def Let_def)
  have e: "labelled_edge (U ''step-'' @ nat_String i) ((U ''step-'' @ nat_String i) @ U ''-yes'') (U ''Yes'')
             \<in> set (st_edges (decision_step N ?parts i st'))"
          "labelled_edge (U ''step-'' @ nat_String i) ((U ''step-'' @ nat_String i) @ U ''-no'') (U ''No'')
             \<in> set (st_edges (decision_step N ?parts i st'))"
          "plain_edge ((U ''step-'' @ nat_String i) @ U ''-yes'') (U ''merge-'' @ nat_String i)
             \<in> set (st_edges (decision_step N ?parts i st'))"
          "plain_edge ((U ''step-'' @ nat_String i) @ U ''-no'') (U ''merge-'' @ nat_String i)
             \<in> set (st_edges (decision_step N ?parts i st'))"
    by (simp_all add: decision_step_def Let_def)
  from n1 n2 n3 n4 e sub show ?thesis
    unfolding Let_def by (meson subsetD)
qed


theorem decision_step_fans_out_witness:
  "3 \<le> length (split_parts (U ''visit site, verify email, create profile'')) \<and>
   1 \<in> set (visited (split_parts (U ''visit site, verify email, create profile'')) 1) \<and>
   isDecision (split_parts (U ''visit site, verify email, create profile'') ! 1) \<and>
   1 + 1 < length (split_parts (U ''visit site, verify email, create profile'')) \<and>
   (let g = generateLocalFlowchart int_ops (U ''visit site, verify email, create profile'') (U ''process'');
        parts = split_parts (U ''visit site, verify email, create profile'');
        stepId = U ''step-'' @ nat_String 1;
        yesId = stepId @ U ''-yes'';
        noId = stepId @ U ''-no'';
        mergeId = U ''merge-'' @ nat_String 1
    in (\<exists>n \<in> set (nodes g). node_id n = stepId \<and> node_type n = Decision \<and>
           data_label n = take 25 (strip_parens (parts ! 1))) \<and>
       (\<exists>n \<in> set (nodes g). node_id n = yesId \<and> node_type n = Process \<and>
           data_label n = U ''Continue'') \<and>
       (\<exists>n \<in> set (nodes g). node_id n = noId \<and> node_type n = Process \<and>
           data_label n = U ''Handle'') \<and>
       (\<exists>n \<in> set (nodes g). node_id n = mergeId \<and>
           node_type n = (if 1 + 2 = length parts then StartEnd else Process)) \<and>
       labelled_edge stepId yesId (U ''Yes'') \<in> set (edges g) \<and>
       labelled_edge stepId noId (U ''No'') \<in> set (edges g) \<and>
       plain_edge yesId mergeId \<in> set (edges g) \<and>
       plain_edge noId mergeId \<in> set (edges g))"
proof -
  let ?p = "U ''visit site, verify email, create profile''"
  have parts: "split_parts ?p = [U ''visit site'', U ''verify email'', U ''create profile'']"
    by (simp add: split_parts_def split_seps_def U_def trim_def is_ws_def)
  have h1: "3 \<le> length (split_parts ?p)" unfolding parts by simp
  have h3: "isDecision (split_parts ?p ! 1)" unfolding parts by (simp add: isDecision_def U_def)
  have h4: "1 + 1 < length (split_parts ?p)" unfolding parts by simp
  have h2: "1 \<in> set (visited (split_parts ?p) 1)"
    using h3 h4 by (subst visited.simps) (simp add: parts)
  from decision_step_fans_out[OF h1 h2 h3 h4, of int_ops "U ''process''"] h1 h2 h3 h4 show ?thesis by blast
qed

text \<open>
  The claim C7 as stated fails: in "a, check b, verify c, d" the part "verify c"
  contains a keyword and is not the last part, yet it only labels the merge node of the
  decision step before it; the graph has a single decision node.
\<close>

theorem skipped_segment_is_no_decision:
  "split_parts (U ''a, check b, verify c, d'') = [U ''a'', U ''check b'', U ''verify c'', U ''d''] \<and>
   isDecision (U ''verify c'') \<and>
   map node_type (nodes (generateLocalFlowchart int_ops (U ''a, check b, verify c, d'') (U ''process'')))
     = [StartEnd, Decision, Process, Process, Process, StartEnd] \<and>
   map data_label (nodes (generateLocalFlowchart int_ops (U ''a, check b, verify c, d'') (U ''process'')))
     = [U ''a'', U ''check b'', U ''Continue'', U ''Handle'', U ''verify c'', U ''d'']"
  by (simp add: local_eval)

lemma nth_take9: "take 9 ps = take 9 qs \<Longrightarrow> k < 9 \<Longrightarrow> ps ! k = qs ! k"
  by (metis nth_take)

lemma loop_take9:
  "10 \<le> length ps \<Longrightarrow> 10 \<le> length qs \<Longrightarrow> take 9 ps = take 9 qs \<Longrightarrow>
   loop N ps i st = loop N qs i st"
proof (induction N ps i st rule: loop.induct)
  case (1 N ps i st)
  show ?case
  proof (cases "i < 8")
    case False
    with 1(3,4) have "\<not> i < min (length ps) 8" "\<not> i < min (length qs) 8" by simp_all
    then show ?thesis by (simp add: loop_done)
  next
    case True
    with 1(3,4) have lt: "i < min (length ps) 8" "i < min (length qs) 8" by simp_all
    have same: "ps ! i = qs ! i" "ps ! (i + 1) = qs ! (i + 1)"
      using nth_take9[OF 1(5)] True by simp_all
    have len: "i + 1 < length ps" "i + 1 < length qs" "i + 2 \<noteq> length ps" "i + 2 \<noteq> length qs"
              "i + 1 \<noteq> length ps" "i + 1 \<noteq> length qs"
      using True 1(3,4) by simp_all
    show ?thesis
    proof (cases "isDecision (ps ! i)")
      case dec: True
      have d1: "isDecision (ps ! i) \<and> i + 1 < length ps" using dec len by simp
      have d2: "isDecision (qs ! i) \<and> i + 1 < length qs" using dec len same by simp
      have "decision_step N ps i st = decision_step N qs i st"
        using same len by (simp add: decision_step_def Let_def)
      with 1(1)[OF lt(1) d1 1(3,4,5)] show ?thesis
        by (simp add: loop_dec[OF lt(1) d1] loop_dec[OF lt(2) d2])
    next
      case nodec: False
      have d1: "\<not> (isDecision (ps ! i) \<and> i + 1 < length ps)" using nodec by simp
      have d2: "\<not> (isDecision (qs ! i) \<and> i + 1 < length qs)" using nodec same by simp
      have "plain_step N ps i st = plain_step N qs i st"
        using same len by (simp add: plain_step_def Let_def)
      with 1(2)[OF lt(1) d1 1(3,4,5)] show ?thesis
        by (simp add: loop_plain[OF lt(1) d1] loop_plain[OF lt(2) d2])
    qed
  qed
qed

lemma loop_no_end:
  "10 \<le> length parts \<Longrightarrow>
   \<exists>xs. st_nodes (loop N parts i st) = st_nodes st @ xs \<and>
        (\<forall>n \<in> set xs. node_type n = Process \<or> node_type n = Decision) \<and>
        (xs \<noteq> [] \<longrightarrow> node_type (last xs) = Process) \<and>
        (i < 8 \<longrightarrow> xs \<noteq> [])"
proof (induction N parts i st rule: loop.induct)
  case (1 N parts i st)
  show ?case
  proof (cases "i < 8")
    case False
    with 1(3) have "\<not> i < min (length parts) 8" by simp
    with False show ?thesis by (simp add: loop_done)
  next
    case True
    with 1(3) have lt: "i < min (length parts) 8" by simp
    have len: "i + 1 < length parts" "i + 2 \<noteq> length parts" "i + 1 \<noteq> length parts"
      using True 1(3) by simp_all
    show ?thesis
    proof (cases "isDecision (parts ! i)")
      case dec: True
      have d1: "isDecision (parts ! i) \<and> i + 1 < length parts" using dec len by simp
      obtain ys where ys: "st_nodes (decision_step N parts i st) = st_nodes st @ ys"
        "\<forall>n \<in> set ys. node_type n = Process \<or> node_type n = Decision"
        "ys \<noteq> []" "node_type (last ys) = Process"
        using len by (simp add: decision_step_def Let_def)
      from 1(1)[OF lt d1 1(3)] obtain xs where xs:
        "st_nodes (loop N parts (i + 2) (decision_step N parts i st)) =
           st_nodes (decision_step N parts i st) @ xs"
        "\<forall>n \<in> set xs. node_type n = Process \<or> node_type n = Decision"
        "xs \<noteq> [] \<longrightarrow> node_type (last xs) = Process" by blast
      have "st_nodes (loop N parts i st) = st_nodes st @ (ys @ xs)"
        using xs(1) ys(1) by (simp add: loop_dec[OF lt d1])
      moreover have "\<forall>n \<in> set (ys @ xs). node_type n = Process \<or> node_type n = Decision"
        using xs(2) ys(2) by auto
      moreover have "node_type (last (ys @ xs)) = Process"
        using xs(3) ys(3,4) by (cases "xs = []") simp_all
      moreover have "ys @ xs \<noteq> []" using ys(3) by simp
      ultimately show ?thesis by blast
    next
      case nodec: False
      have d1: "\<not> (isDecision (parts ! i) \<and> i + 1 < length parts)" using nodec by simp
      obtain ys where ys: "st_nodes (plain_step N parts i st) = st_nodes st @ ys"
        "\<forall>n \<in> set ys. node_type n = Process \<or> node_type n = Decision"
        "ys \<noteq> []" "node_type (last ys) = Process"
        using len by (simp add: plain_step_def Let_def)
      from 1(2)[OF lt d1 1(3)] obtain xs where xs:
        "st_nodes (loop N parts (i + 1) (plain_step N parts i st)) =
           st_nodes (plain_step N parts i st) @ xs"
        "\<forall>n \<in> set xs. node_type n = Process \<or> node_type n = Decision"
        "xs \<noteq> [] \<longrightarrow> node_type (last xs) = Process" by blast
      have "st_nodes (loop N parts i st) = st_nodes st @ (ys @ xs)"
        using xs(1) ys(1) by (simp add: loop_plain[OF lt d1])
      moreover have "\<forall>n \<in> set (ys @ xs). node_type n = Process \<or> node_type n = Decision"
        using xs(2) ys(2) by auto
      moreover have "node_type (last (ys @ xs)) = Process"
        using xs(3) ys(3,4) by (cases "xs = []") simp_all
      moreover have "ys @ xs \<noteq> []" using ys(3) by simp
      ultimately show ?thesis by blast
    qed
  qed
qed

text \<open>
  C10, as the code has it. For a prompt of ten or more parts the graph starts with the
  \<open>startEnd\<close> start node, every later node is a process or decision node, the last
  node is a process node (so the chain has no terminal node), and the graph is
  determined by the first nine parts: the part of index 8 can label the merge node of a
  decision step at index 7.
\<close>

theorem capped_chain_has_no_end:
  assumes "10 \<le> length (split_parts prompt)"
  shows "(\<exists>rest. nodes (generateLocalFlowchart N prompt t) =
            \<lparr>node_id = U ''start'', node_type = StartEnd,
             position_x = num_lit N 250, position_y = num_lit N 0,
             data_label = take 25 (strip_parens (split_parts prompt ! 0))\<rparr> # rest \<and>
            rest \<noteq> [] \<and>
            (\<forall>n \<in> set rest. node_type n = Process \<or> node_type n = Decision) \<and>
            node_type (last rest) = Process) \<and>
         (\<forall>prompt' t'. 10 \<le> length (split_parts prompt') \<and>
               take 9 (split_parts prompt') = take 9 (split_parts prompt) \<longrightarrow>
               generateLocalFlowchart N prompt' t' = generateLocalFlowchart N prompt t)"
proof -
  let ?st0 = "\<lambda>parts. \<lparr>st_nodes = [\<lparr>node_id = U ''start'', node_type = StartEnd,
                                position_x = num_lit N 250, position_y = num_lit N 0,
                                data_label = take 25 (strip_parens (parts ! 0))\<rparr>],
                   st_edges = [], currentY = 120, lastNodeId = U ''start''\<rparr>"
  have g: "\<And>p t. 10 \<le> length (split_parts p) \<Longrightarrow>
     generateLocalFlowchart N p t =
       \<lparr>nodes = st_nodes (loop N (split_parts p) 1 (?st0 (split_parts p))),
        edges = st_edges (loop N (split_parts p) 1 (?st0 (split_parts p)))\<rparr>"
    by (simp add: generateLocalFlowchart_def Let_def)
  from loop_no_end[OF assms, of N 1 "?st0 (split_parts prompt)"]
  have first: "\<exists>rest. nodes (generateLocalFlowchart N prompt t) =
            \<lparr>node_id = U ''start'', node_type = StartEnd,
             position_x = num_lit N 250, position_y = num_lit N 0,
             data_label = take 25 (strip_parens (split_parts prompt ! 0))\<rparr> # rest \<and>
            rest \<noteq> [] \<and>
            (\<forall>n \<in> set rest. node_type n = Process \<or> node_type n = Decision) \<and>
            node_type (last rest) = Process"
    by (simp add: g[OF assms]) blast
  have second: "generateLocalFlowchart N prompt' t' = generateLocalFlowchart N prompt t"
    if h: "10 \<le> length (split_parts prompt')"
          "take 9 (split_parts prompt') = take 9 (split_parts prompt)" for prompt' t'
  proof -
    have "split_parts prompt' ! 0 = split_parts prompt ! 0"
      using nth_take9[OF h(2), of 0] by simp
    then have "?st0 (split_parts prompt') = ?st0 (split_parts prompt)" by simp
    with loop_take9[OF h(1) assms h(2), of N 1 "?st0 (split_parts prompt')"]
    show ?thesis by (simp add: g[OF assms] g[OF h(1)])
  qed
  from first second show ?thesis by blast
qed

text \<open>
  The claim C10 as stated fails on a prompt of ten parts: a part "End" gives a node
  labelled End, and changing only the ninth part (index 8) changes the graph, since the
  decision step at index 7 labels its merge node with it.
\<close>

theorem capped_chain_counterexample:
  "10 \<le> length (split_parts (U ''a,End,c,d,e,f,g,check h,i,j'')) \<and>
   data_label (nodes (generateLocalFlowchart int_ops (U ''a,End,c,d,e,f,g,check h,i,j'') (U ''process'')) ! 1) = U ''End'' \<and>
   take 8 (split_parts (U ''a,End,c,d,e,f,g,check h,X,j'')) = take 8 (split_parts (U ''a,End,c,d,e,f,g,check h,i,j'')) \<and>
   generateLocalFlowchart int_ops (U ''a,End,c,d,e,f,g,check h,X,j'') (U ''process'') \<noteq>
   generateLocalFlowchart int_ops (U ''a,End,c,d,e,f,g,check h,i,j'') (U ''process'')"
  by (simp add: local_eval)


theorem capped_chain_has_no_end_witness:
  "10 \<le> length (split_parts (U ''a,End,c,d,e,f,g,check h,i,j'')) \<and>
   10 \<le> length (split_parts (U ''a,End,c,d,e,f,g,check h,i,k,l'')) \<and>
   take 9 (split_parts (U ''a,End,c,d,e,f,g,check h,i,k,l'')) =
     take 9 (split_parts (U ''a,End,c,d,e,f,g,check h,i,j'')) \<and>
   generateLocalFlowchart int_ops (U ''a,End,c,d,e,f,g,check h,i,k,l'') (U ''roadmap'') =
     generateLocalFlowchart int_ops (U ''a,End,c,d,e,f,g,check h,i,j'') (U ''process'') \<and>
   (\<exists>rest. nodes (generateLocalFlowchart int_ops (U ''a,End,c,d,e,f,g,check h,i,j'') (U ''process'')) =
      \<lparr>node_id = U ''start'', node_type = StartEnd,
       position_x = num_lit int_ops 250, position_y = num_lit int_ops 0,
       data_label = take 25 (strip_parens (split_parts (U ''a,End,c,d,e,f,g,check h,i,j'') ! 0))\<rparr> # rest \<and>
      rest \<noteq> [] \<and>
      (\<forall>n \<in> set rest. node_type n = Process \<or> node_type n = Decision) \<and>
      node_type (last rest) = Process)"
proof -
  let ?p = "U ''a,End,c,d,e,f,g,check h,i,j''"
  let ?q = "U ''a,End,c,d,e,f,g,check h,i,k,l''"
  have h1: "10 \<le> length (split_parts ?p)"
    by (simp add: split_parts_def split_seps_def U_def trim_def is_ws_def)
  have h2: "10 \<le> length (split_parts ?q)"
    by (simp add: split_parts_def split_seps_def U_def trim_def is_ws_def)
  have h3: "take 9 (split_parts ?q) = take 9 (split_parts ?p)"
    by (simp add: split_parts_def split_seps_def U_def trim_def is_ws_def)
  from capped_chain_has_no_end[OF h1, of int_ops "U ''process''"] h1 h2 h3
  show ?thesis by blast
qed

text \<open>
  C3, as the code has it. The part "check stock" contains the keyword \<open>check\<close> and is
  not the last part, so the prompt "receive order, check stock, ship order" gives, for
  every diagram type, five nodes: the \<open>startEnd\<close> node "receive order", the decision node
  "check stock", the two lanes, and the merge node, which is the \<open>startEnd\<close> node "End";
  the part "ship order" yields no node. The five edges are animated and connect the
  start node to the merge node through both lanes.
\<close>

theorem local_receive_order_graph:
  "generateLocalFlowchart N (U ''receive order, check stock, ship order'') t =
  \<lparr>nodes =
    [\<lparr>node_id = U ''start'', node_type = StartEnd, position_x = num_lit N 250,
      position_y = num_lit N 0, data_label = U ''receive order''\<rparr>,
     \<lparr>node_id = U ''step-1'', node_type = Decision, position_x = num_lit N 250,
      position_y = num_lit N 120, data_label = U ''check stock''\<rparr>,
     \<lparr>node_id = U ''step-1-yes'', node_type = Process, position_x = num_lit N 50,
      position_y = num_lit N 240, data_label = U ''Continue''\<rparr>,
     \<lparr>node_id = U ''step-1-no'', node_type = Process, position_x = num_lit N 450,
      position_y = num_lit N 240, data_label = U ''Handle''\<rparr>,
     \<lparr>node_id = U ''merge-1'', node_type = StartEnd, position_x = num_lit N 250,
      position_y = num_lit N 360, data_label = U ''End''\<rparr>],
   edges =
    [\<lparr>edge_id = U ''e-start-step-1'', source = U ''start'', target = U ''step-1'',
      label = None, animated = Some True\<rparr>,
     \<lparr>edge_id = U ''e-step-1-step-1-yes'', source = U ''step-1'', target = U ''step-1-yes'',
      label = Some (U ''Yes''), animated = Some True\<rparr>,
     \<lparr>edge_id = U ''e-step-1-step-1-no'', source = U ''step-1'', target = U ''step-1-no'',
      label = Some (U ''No''), animated = Some True\<rparr>,
     \<lparr>edge_id = U ''e-step-1-yes-merge-1'', source = U ''step-1-yes'', target = U ''merge-1'',
      label = None, animated = Some True\<rparr>,
     \<lparr>edge_id = U ''e-step-1-no-merge-1'', source = U ''step-1-no'', target = U ''merge-1'',
      label = None, animated = Some True\<rparr>]\<rparr>"
  by (simp add: local_eval)

text \<open>
  The claim C3 as stated fails: the graph of that prompt has a decision node, and
  its two lanes make it no linear chain.
\<close>

theorem local_receive_order_has_decision:
  "isDecision (split_parts (U ''receive order, check stock, ship order'') ! 1) \<and>
   map node_type
     (nodes (generateLocalFlowchart int_ops (U ''receive order, check stock, ship order'')
        (U ''process''))) =
     [StartEnd, Decision, Process, Process, StartEnd]"
  by (simp add: local_eval)

text \<open>
  The handler answers an empty prompt with the 400 response, so the local generator
  is only ever called with a non-empty prompt.
\<close>

lemma POST_rejects_empty_prompt:
  "req_prompt req = [] \<Longrightarrow> POST N parse ev fetch (Some req) = BadRequest"
  by (simp add: POST_def Let_def)

text \<open>
  C6. A non-empty prompt with fewer than three parts gives exactly the nodes \<open>start\<close>
  (\<open>startEnd\<close>, "Start"), \<open>process\<close> (\<open>process\<close>, labelled with the first 25 code units
  of the prompt) and \<open>end\<close> (\<open>startEnd\<close>, "End"), and exactly the two animated edges
  start to process and process to end.
\<close>

theorem skeleton_for_short_prompts:
  assumes "prompt \<noteq> []" and "length (split_parts prompt) < 3"
  shows "map node_id (nodes (generateLocalFlowchart N prompt t)) =
           [U ''start'', U ''process'', U ''end''] \<and>
         map node_type (nodes (generateLocalFlowchart N prompt t)) =
           [StartEnd, Process, StartEnd] \<and>
         map data_label (nodes (generateLocalFlowchart N prompt t)) =
           [U ''Start'', take 25 prompt, U ''End''] \<and>
         map (\<lambda>e. (source e, target e, label e, animated e))
             (edges (generateLocalFlowchart N prompt t)) =
           [(U ''start'', U ''process'', None, Some True),
            (U ''process'', U ''end'', None, Some True)]"
  using assms by (simp add: generateLocalFlowchart_def skeleton_def Let_def)

theorem skeleton_for_short_prompts_witness:
  "U ''launch product'' \<noteq> [] \<and>
   length (split_parts (U ''launch product'')) < 3 \<and>
   map node_id (nodes (generateLocalFlowchart int_ops (U ''launch product'') (U ''process''))) =
     [U ''start'', U ''process'', U ''end''] \<and>
   map node_type (nodes (generateLocalFlowchart int_ops (U ''launch product'') (U ''process''))) =
     [StartEnd, Process, StartEnd] \<and>
   map data_label (nodes (generateLocalFlowchart int_ops (U ''launch product'') (U ''process''))) =
     [U ''Start'', U ''launch product'', U ''End''] \<and>
   map (\<lambda>e. (source e, target e, label e, animated e))
       (edges (generateLocalFlowchart int_ops (U ''launch product'') (U ''process''))) =
     [(U ''start'', U ''process'', None, Some True),
      (U ''process'', U ''end'', None, Some True)]"
proof -
  have h0: "U ''launch product'' \<noteq> []" by (simp add: U_def)
  have h: "length (split_parts (U ''launch product'')) < 3"
    by (simp add: split_parts_def split_seps_def U_def trim_def is_ws_def)
  have "take 25 (U ''launch product'') = U ''launch product''"
    by (simp add: U_def)
  with skeleton_for_short_prompts[OF h0 h, of int_ops "U ''process''"] h0 h
  show ?thesis by simp
qed

section \<open>Properties of the sanitizer\<close>

lemma bind_res_simps [simp]:
  "bind_res (Inr a) f = f a" "bind_res (Inl e) f = Inl e"
  by (simp_all add: bind_res_def)

lemma bind_res_Inr: "bind_res m f = Inr y \<longleftrightarrow> (\<exists>a. m = Inr a \<and> f a = Inr y)"
  by (cases m) simp_all

lemma filter_res_Inr:
  "filter_res p xs = Inr ys \<Longrightarrow> ys = filter (\<lambda>x. p x = Inr True) xs"
  by (induction xs arbitrary: ys) (auto simp: bind_res_Inr)

lemma map_res_Inr:
  "map_res f xs = Inr ys \<Longrightarrow> list_all2 (\<lambda>x y. f x = Inr y) xs ys"
  by (induction xs arbitrary: ys) (auto simp: bind_res_Inr)

lemma sanitize_node_Inr:
  "sanitize_node N n = Inr (a, y) \<Longrightarrow>
   a = node_id y \<and> prop_String N n (U ''id'') = Inr (node_id y) \<and>
   node_type y = coerce_type (get_prop n (U ''type'')) \<and>
   position_x y = axis N n (U ''x'') 250 \<and> position_y y = axis N n (U ''y'') 0 \<and>
   (\<exists>l. read_label N n = Inr l \<and> data_label y = take 40 l)"
  by (auto simp: sanitize_node_def bind_res_Inr)

lemma map_nodes_Inr:
  "map_nodes N ids ns = Inr (ids', ys) \<Longrightarrow>
   ids' = ids \<union> node_id ` set ys \<and>
   list_all2 (\<lambda>n y. sanitize_node N n = Inr (node_id y, y)) ns ys"
proof (induction ns arbitrary: ids ids' ys)
  case Nil
  then show ?case by simp
next
  case (Cons n ns)
  from Cons.prems obtain a y ids2 rest where
    s: "sanitize_node N n = Inr (a, y)" and
    m: "map_nodes N (insert a ids) ns = Inr (ids2, rest)" and
    r: "ids' = ids2" "ys = y # rest"
    by (auto simp: bind_res_Inr)
  from sanitize_node_Inr[OF s] have a: "a = node_id y" by simp
  from Cons.IH[OF m] r s a show ?case by auto
qed

lemma validate_accepts:
  assumes "validateFlowchart N data = Inr (Some g)"
  shows "\<exists>raw_nodes raw_edges nodeIds kept.
           get_prop data (U ''nodes'') = Some (JArr raw_nodes) \<and>
           get_prop data (U ''edges'') = Some (JArr raw_edges) \<and>
           map_nodes N {} (filter (keep_node N) raw_nodes) = Inr (nodeIds, nodes g) \<and>
           nodes g \<noteq> [] \<and>
           filter_res (keep_edge N nodeIds) raw_edges = Inr kept \<and>
           map_res (sanitize_edge N) kept = Inr (edges g)"
proof -
  from assms obtain raw_nodes raw_edges where
    p: "get_prop data (U ''nodes'') = Some (JArr raw_nodes)"
       "get_prop data (U ''edges'') = Some (JArr raw_edges)"
    unfolding validateFlowchart_def
    by (auto split: if_splits option.splits json.splits)
  from assms p have
    "bind_res (map_nodes N {} (filter (keep_node N) raw_nodes))
        (\<lambda>(nodeIds, ns).
            if length ns = 0 then Inr None
            else bind_res (filter_res (keep_edge N nodeIds) raw_edges) (\<lambda>kept.
                 bind_res (map_res (sanitize_edge N) kept) (\<lambda>es.
                   Inr (Some \<lparr>nodes = ns, edges = es\<rparr>)))) = Inr (Some g)"
    unfolding validateFlowchart_def by (simp split: if_splits)
  then obtain nodeIds ns kept es where
    "map_nodes N {} (filter (keep_node N) raw_nodes) = Inr (nodeIds, ns)" "ns \<noteq> []"
    "filter_res (keep_edge N nodeIds) raw_edges = Inr kept"
    "map_res (sanitize_edge N) kept = Inr es" "g = \<lparr>nodes = ns, edges = es\<rparr>"
    by (auto simp: bind_res_Inr split: if_splits)
  with p show ?thesis by auto
qed

lemma sanitize_edge_Inr:
  "sanitize_edge N e = Inr ed \<Longrightarrow>
   prop_String N e (U ''source'') = Inr (source ed) \<and>
   prop_String N e (U ''target'') = Inr (target ed) \<and> animated ed = Some True"
  unfolding sanitize_edge_def bind_res_Inr by auto

lemma keep_edge_True:
  "keep_edge N ids e = Inr True \<Longrightarrow>
   \<exists>s t. prop_String N e (U ''source'') = Inr s \<and> prop_String N e (U ''target'') = Inr t \<and>
         s \<in> ids \<and> t \<in> ids"
  unfolding keep_edge_def by (auto simp: bind_res_Inr split: if_splits)

lemma kept_edge_endpoints:
  assumes "keep_edge N ids e = Inr True" and "sanitize_edge N e = Inr ed"
  shows "source ed \<in> ids \<and> target ed \<in> ids \<and> animated ed = Some True"
  using keep_edge_True[OF assms(1)] sanitize_edge_Inr[OF assms(2)] by auto

lemma list_all2_right:
  "list_all2 P xs ys \<Longrightarrow> \<forall>y \<in> set ys. \<exists>x \<in> set xs. P x y"
  by (induction rule: list_all2_induct) auto

lemma accepted_edges_closed:
  assumes "validateFlowchart N data = Inr (Some g)"
  shows "(\<forall>e \<in> set (edges g).
            source e \<in> node_id ` set (nodes g) \<and> target e \<in> node_id ` set (nodes g)) \<and>
         (\<exists>raw_edges.
            get_prop data (U ''edges'') = Some (JArr raw_edges) \<and>
            map_res (sanitize_edge N)
              (filter (\<lambda>e. keep_edge N (node_id ` set (nodes g)) e = Inr True) raw_edges) =
              Inr (edges g))"
proof -
  from validate_accepts[OF assms] obtain raw_nodes raw_edges nodeIds kept where
    h: "get_prop data (U ''edges'') = Some (JArr raw_edges)"
       "map_nodes N {} (filter (keep_node N) raw_nodes) = Inr (nodeIds, nodes g)"
       "filter_res (keep_edge N nodeIds) raw_edges = Inr kept"
       "map_res (sanitize_edge N) kept = Inr (edges g)"
    by blast
  have ids: "nodeIds = node_id ` set (nodes g)" using map_nodes_Inr[OF h(2)] by simp
  have kept: "kept = filter (\<lambda>e. keep_edge N (node_id ` set (nodes g)) e = Inr True) raw_edges"
    using filter_res_Inr[OF h(3)] ids by simp
  have "\<forall>e \<in> set (edges g). \<exists>r \<in> set kept. sanitize_edge N r = Inr e"
    using list_all2_right[OF map_res_Inr[OF h(4)]] .
  moreover have "\<forall>r \<in> set kept. keep_edge N (node_id ` set (nodes g)) r = Inr True"
    unfolding kept by simp
  ultimately have "\<forall>e \<in> set (edges g).
            source e \<in> node_id ` set (nodes g) \<and> target e \<in> node_id ` set (nodes g)"
    using kept_edge_endpoints by blast
  with h(1,4) kept show ?thesis by blast
qed

lemma node_json_props:
  "get_prop (node_json y) (U ''id'') = Some (JStr (node_id y))"
  "get_prop (node_json y) (U ''type'') = Some (JStr (type_name (node_type y)))"
  "get_prop (node_json y) (U ''data'') = Some (JObj [(U ''label'', JStr (data_label y))])"
  "get_prop (node_json y) (U ''position'') =
     Some (JObj [(U ''x'', JNum (position_x y)), (U ''y'', JNum (position_y y))])"
  by (simp_all add: node_json_def get_prop_def U_def)

lemma coerce_type_name: "coerce_type (Some (JStr (type_name t))) = t"
  by (cases t)
     (simp_all add: coerce_type_def type_name_def type_of_name_def VALID_NODE_TYPES_def U_def)

lemma keep_node_json:
  "keep_node N (node_json y) \<longleftrightarrow> node_id y \<noteq> [] \<and> data_label y \<noteq> []"
  by (simp add: keep_node_def data_label_of_def node_json_props)
     (simp add: node_json_def get_prop_def)

lemma sanitize_node_json:
  "length (data_label y) \<le> 40 \<Longrightarrow> sanitize_node N (node_json y) = Inr (node_id y, y)"
  by (simp add: sanitize_node_def read_label_def prop_String_def node_json_props
      coerce_type_name axis_def)
     (simp add: get_prop_def U_def)

lemma map_nodes_json:
  "\<forall>y \<in> set ys. length (data_label y) \<le> 40 \<Longrightarrow>
   map_nodes N ids (map node_json ys) = Inr (ids \<union> node_id ` set ys, ys)"
  by (induction ys arbitrary: ids) (simp_all add: sanitize_node_json)

lemma edge_json_props:
  "get_prop (edge_json e) (U ''id'') = Some (JStr (edge_id e))"
  "get_prop (edge_json e) (U ''source'') = Some (JStr (source e))"
  "get_prop (edge_json e) (U ''target'') = Some (JStr (target e))"
  "get_prop (edge_json e) (U ''label'') = (case label e of None \<Rightarrow> None | Some l \<Rightarrow> Some (JStr l))"
  by (simp_all add: edge_json_def get_prop_def U_def split: option.splits)

lemma keep_edge_json:
  "source e \<noteq> [] \<Longrightarrow> target e \<noteq> [] \<Longrightarrow> source e \<in> ids \<Longrightarrow> target e \<in> ids \<Longrightarrow>
   keep_edge N ids (edge_json e) = Inr True"
  by (simp add: keep_edge_def edge_json_props prop_String_def) (simp add: edge_json_def)

lemma sanitize_edge_json:
  "edge_id e \<noteq> [] \<Longrightarrow> label e \<noteq> Some [] \<Longrightarrow> animated e = Some True \<Longrightarrow>
   sanitize_edge N (edge_json e) = Inr e"
  by (cases "label e") (simp_all add: sanitize_edge_def edge_json_props prop_String_def)

lemma filter_res_all: "\<forall>x \<in> set xs. p x = Inr True \<Longrightarrow> filter_res p xs = Inr xs"
  by (induction xs) simp_all

lemma map_res_inverse: "\<forall>x \<in> set xs. f (h x) = Inr x \<Longrightarrow> map_res f (map h xs) = Inr xs"
  by (induction xs) simp_all

lemma accepted_labels_short:
  assumes "validateFlowchart N data = Inr (Some g)"
  shows "\<forall>y \<in> set (nodes g). length (data_label y) \<le> 40"
proof -
  from validate_accepts[OF assms] obtain raw_nodes nodeIds where
    "map_nodes N {} (filter (keep_node N) raw_nodes) = Inr (nodeIds, nodes g)" by blast
  from map_nodes_Inr[OF this]
  have "list_all2 (\<lambda>n y. sanitize_node N n = Inr (node_id y, y))
          (filter (keep_node N) raw_nodes) (nodes g)" by simp
  from list_all2_right[OF this] show ?thesis
    by (fastforce dest: sanitize_node_Inr)
qed

lemma accepted_edges_animated:
  assumes "validateFlowchart N data = Inr (Some g)"
  shows "\<forall>e \<in> set (edges g). animated e = Some True"
proof -
  from validate_accepts[OF assms] obtain kept where
    "map_res (sanitize_edge N) kept = Inr (edges g)" by blast
  from list_all2_right[OF map_res_Inr[OF this]] show ?thesis
    by (fastforce dest: sanitize_edge_Inr)
qed

lemmas validate_eval =
  validateFlowchart_def keep_node_def data_label_of_def sanitize_node_def read_label_def
  prop_String_def get_prop_def coerce_type_def axis_def keep_edge_def sanitize_edge_def
  U_def int_ops_def flow_json_def node_json_def edge_json_def type_name_def
  type_of_name_def VALID_NODE_TYPES_def

lemma keep_node_iff:
  "keep_node N n \<longleftrightarrow> truthy N (get_prop n (U ''id'')) \<and> truthy N (data_label_of n)"
  by (cases n) (simp_all add: keep_node_def get_prop_def)

lemma kept_label:
  "truthy N (data_label_of n) \<Longrightarrow>
   \<exists>v. data_label_of n = Some v \<and> read_label N n = js_String N v"
  by (cases "get_prop n (U ''data'')"; cases "data_label_of n")
     (auto simp: data_label_of_def read_label_def prop_String_def get_prop_def
           split: json.splits option.splits)

lemma kept_id:
  "truthy N (get_prop n (U ''id'')) \<Longrightarrow>
   \<exists>v. get_prop n (U ''id'') = Some v \<and> prop_String N n (U ''id'') = js_String N v"
  by (cases "get_prop n (U ''id'')") (simp_all add: prop_String_def)

lemma coerce_type_spec:
  "(case v of
      Some (JStr s) \<Rightarrow>
        (if s \<in> set VALID_NODE_TYPES then type_name (coerce_type v) = s
         else coerce_type v = Process)
    | _ \<Rightarrow> coerce_type v = Process)"
  by (auto simp: coerce_type_def type_name_def type_of_name_def VALID_NODE_TYPES_def U_def
           split: option.splits json.splits)

lemma axis_spec:
  "axis N n k d = (case axis_value n k of Some (JNum v) \<Rightarrow> v | _ \<Rightarrow> num_lit N d)"
  by (auto simp: axis_value_def axis_def split: option.splits json.splits)

lemma list_all2_left_pred:
  "list_all2 P xs ys \<Longrightarrow> \<forall>x \<in> set xs. Q x \<Longrightarrow> list_all2 (\<lambda>x y. P x y \<and> Q x) xs ys"
  by (induction rule: list_all2_induct) auto

lemma sanitize_node_spec:
  assumes "sanitize_node N n = Inr (node_id y, y) \<and>
           truthy N (get_prop n (U ''id'')) \<and> truthy N (data_label_of n)"
  shows "sanitized_from N n y"
proof -
  from sanitize_node_Inr[of N n "node_id y" y] assms obtain l where
    s: "prop_String N n (U ''id'') = Inr (node_id y)"
       "node_type y = coerce_type (get_prop n (U ''type''))"
       "position_x y = axis N n (U ''x'') 250" "position_y y = axis N n (U ''y'') 0"
       "read_label N n = Inr l" "data_label y = take 40 l" by blast
  from kept_id[of N n] assms s(1) obtain v where
    i: "get_prop n (U ''id'') = Some v" "js_String N v = Inr (node_id y)" by metis
  from kept_label[of N n] assms s(5) obtain w where
    lab: "data_label_of n = Some w" "js_String N w = Inr l" by metis
  have ty: "(case get_prop n (U ''type'') of
        Some (JStr s) \<Rightarrow>
          (if s \<in> set VALID_NODE_TYPES then type_name (node_type y) = s
           else node_type y = Process)
      | _ \<Rightarrow> node_type y = Process)"
    unfolding s(2) by (rule coerce_type_spec)
  show ?thesis
    unfolding sanitized_from_def
    using i lab s(6) ty by (simp add: s(3,4) axis_spec)
qed

lemma example_accepted: "validateFlowchart int_ops example_raw = Inr (Some example_graph)"
  by (simp add: example_raw_def example_graph_def validate_eval nat_String.simps)

lemma example_unlabelled_rejected: "validateFlowchart int_ops example_unlabelled = Inr None"
  by (simp add: example_unlabelled_def validate_eval)

text \<open>
  C2. In every graph \<open>validateFlowchart\<close> returns, both ends of every edge are
  identifiers of returned nodes, and the returned edges are exactly the raw edge
  entries that pass the filter against the returned identifiers, in order: an entry
  whose source or target is not such an identifier is dropped.
\<close>

theorem sanitized_edges_reference_nodes:
  assumes "validateFlowchart N data = Inr (Some g)"
  shows "(\<forall>e \<in> set (edges g).
            source e \<in> node_id ` set (nodes g) \<and> target e \<in> node_id ` set (nodes g)) \<and>
         (\<exists>raw_edges.
            get_prop data (U ''edges'') = Some (JArr raw_edges) \<and>
            map_res (sanitize_edge N)
              (filter (\<lambda>e. keep_edge N (node_id ` set (nodes g)) e = Inr True) raw_edges) =
              Inr (edges g))"
  using assms by (rule accepted_edges_closed)

theorem sanitized_edges_reference_nodes_witness:
  "validateFlowchart int_ops example_raw = Inr (Some example_graph) \<and>
   list_all (\<lambda>e. source e \<in> node_id ` set (nodes example_graph) \<and>
                  target e \<in> node_id ` set (nodes example_graph))
            (edges example_graph) \<and>
   (\<exists>raw_edges.
      get_prop example_raw (U ''edges'') = Some (JArr raw_edges) \<and>
      map_res (sanitize_edge int_ops)
        (filter (\<lambda>e. keep_edge int_ops (node_id ` set (nodes example_graph)) e = Inr True)
           raw_edges) =
        Inr (edges example_graph))"
  using sanitized_edges_reference_nodes[OF example_accepted] example_accepted
  unfolding list_all_iff by blast

text \<open>
  C5. When \<open>validateFlowchart\<close> returns a graph, its nodes are, in order, the raw
  entries with a truthy \<open>id\<close> and a truthy \<open>data.label\<close>, each normalised as
  \<open>sanitized_from\<close> says (kind coerced to \<open>process\<close> unless it is one of the four
  names, each axis defaulted on its own, label cut to 40 code units). When no raw entry
  has a truthy \<open>id\<close> and a truthy label, the result is \<open>null\<close>.
\<close>

theorem node_pass_normalises:
  "(validateFlowchart N data = Inr (Some g) \<longrightarrow>
      (\<exists>raw_nodes.
         get_prop data (U ''nodes'') = Some (JArr raw_nodes) \<and>
         list_all2 (sanitized_from N)
           (filter (\<lambda>n. truthy N (get_prop n (U ''id'')) \<and> truthy N (data_label_of n)) raw_nodes)
           (nodes g))) \<and>
   (get_prop data (U ''nodes'') = Some (JArr raw) \<and>
    (\<forall>n \<in> set raw. \<not> (truthy N (get_prop n (U ''id'')) \<and> truthy N (data_label_of n))) \<longrightarrow>
      validateFlowchart N data = Inr None)"
proof (intro conjI impI)
  assume acc: "validateFlowchart N data = Inr (Some g)"
  from validate_accepts[OF acc] obtain raw_nodes nodeIds where
    p: "get_prop data (U ''nodes'') = Some (JArr raw_nodes)" and
    m: "map_nodes N {} (filter (keep_node N) raw_nodes) = Inr (nodeIds, nodes g)" by blast
  let ?kept = "filter (\<lambda>n. truthy N (get_prop n (U ''id'')) \<and> truthy N (data_label_of n)) raw_nodes"
  have k: "filter (keep_node N) raw_nodes = ?kept"
    by (rule filter_cong) (simp_all add: keep_node_iff)
  have l2: "list_all2 (\<lambda>n y. sanitize_node N n = Inr (node_id y, y) \<and>
              (truthy N (get_prop n (U ''id'')) \<and> truthy N (data_label_of n))) ?kept (nodes g)"
    using map_nodes_Inr[OF m] unfolding k
    by (intro list_all2_left_pred) simp_all
  have "list_all2 (sanitized_from N) ?kept (nodes g)"
    by (rule list_all2_mono[OF l2]) (rule sanitize_node_spec)
  with p show "\<exists>raw_nodes.
         get_prop data (U ''nodes'') = Some (JArr raw_nodes) \<and>
         list_all2 (sanitized_from N)
           (filter (\<lambda>n. truthy N (get_prop n (U ''id'')) \<and> truthy N (data_label_of n)) raw_nodes)
           (nodes g)"
    by blast
next
  assume a: "get_prop data (U ''nodes'') = Some (JArr raw) \<and>
    (\<forall>n \<in> set raw. \<not> (truthy N (get_prop n (U ''id'')) \<and> truthy N (data_label_of n)))"
  then have "filter (keep_node N) raw = []"
    by (simp add: filter_empty_conv keep_node_iff)
  with a show "validateFlowchart N data = Inr None"
    unfolding validateFlowchart_def
    by (auto split: option.splits json.splits)
qed

theorem node_pass_normalises_witness:
  "validateFlowchart int_ops example_raw = Inr (Some example_graph) \<and>
   (\<exists>raw_nodes.
      get_prop example_raw (U ''nodes'') = Some (JArr raw_nodes) \<and>
      list_all2 (sanitized_from int_ops)
        (filter (\<lambda>n. truthy int_ops (get_prop n (U ''id'')) \<and> truthy int_ops (data_label_of n))
           raw_nodes)
        (nodes example_graph)) \<and>
   get_prop example_unlabelled (U ''nodes'') =
     Some (JArr [JObj [(U ''id'', JStr (U ''c''))], JNull]) \<and>
   list_all (\<lambda>n. \<not> (truthy int_ops (get_prop n (U ''id'')) \<and> truthy int_ops (data_label_of n)))
     [JObj [(U ''id'', JStr (U ''c''))], JNull :: int json] \<and>
   validateFlowchart int_ops example_unlabelled = Inr None"
proof -
  have a: "get_prop example_unlabelled (U ''nodes'') =
             Some (JArr [JObj [(U ''id'', JStr (U ''c''))], JNull])"
    by (simp add: example_unlabelled_def get_prop_def U_def)
  have b: "\<forall>n \<in> set [JObj [(U ''id'', JStr (U ''c''))], JNull :: int json].
       \<not> (truthy int_ops (get_prop n (U ''id'')) \<and> truthy int_ops (data_label_of n))"
    by (simp add: data_label_of_def get_prop_def U_def)
  from node_pass_normalises[of int_ops example_raw example_graph] example_accepted
       node_pass_normalises[of int_ops example_unlabelled _
         "[JObj [(U ''id'', JStr (U ''c''))], JNull]"] a b
  show ?thesis unfolding list_all_iff by blast
qed

text \<open>
  C4, as the code has it. Sanitizing again a graph that \<open>validateFlowchart\<close> returned
  gives the same graph, provided the graph has no empty node identifier, node label or
  edge identifier and no edge label that is the empty string.
\<close>

theorem resanitize_is_identity:
  assumes acc: "validateFlowchart N data = Inr (Some g)"
    and ne_nodes: "\<forall>y \<in> set (nodes g). node_id y \<noteq> [] \<and> data_label y \<noteq> []"
    and ne_edges: "\<forall>e \<in> set (edges g). edge_id e \<noteq> [] \<and> label e \<noteq> Some []"
  shows "validateFlowchart N (flow_json g) = Inr (Some g)"
proof -
  have nz: "nodes g \<noteq> []" using validate_accepts[OF acc] by blast
  have keep: "filter (keep_node N) (map node_json (nodes g)) = map node_json (nodes g)"
    using ne_nodes by (simp add: filter_id_conv keep_node_json)
  have nodes2: "map_nodes N {} (map node_json (nodes g)) = Inr (node_id ` set (nodes g), nodes g)"
    using map_nodes_json[OF accepted_labels_short[OF acc], of N "{}"] by simp
  have closed: "\<forall>e \<in> set (edges g).
            source e \<in> node_id ` set (nodes g) \<and> target e \<in> node_id ` set (nodes g)"
    using accepted_edges_closed[OF acc] by blast
  have "\<forall>e \<in> set (edges g). keep_edge N (node_id ` set (nodes g)) (edge_json e) = Inr True"
  proof
    fix e assume e: "e \<in> set (edges g)"
    with closed ne_nodes have "source e \<noteq> []" "target e \<noteq> []"
      "source e \<in> node_id ` set (nodes g)" "target e \<in> node_id ` set (nodes g)" by auto
    then show "keep_edge N (node_id ` set (nodes g)) (edge_json e) = Inr True"
      by (rule keep_edge_json)
  qed
  then have "\<forall>j \<in> set (map edge_json (edges g)). keep_edge N (node_id ` set (nodes g)) j = Inr True"
    by simp
  from filter_res_all[OF this]
  have edges1: "filter_res (keep_edge N (node_id ` set (nodes g))) (map edge_json (edges g)) =
           Inr (map edge_json (edges g))" .
  have "\<forall>e \<in> set (edges g). sanitize_edge N (edge_json e) = Inr e"
    using ne_edges accepted_edges_animated[OF acc] by (simp add: sanitize_edge_json)
  then have edges2: "map_res (sanitize_edge N) (map edge_json (edges g)) = Inr (edges g)"
    by (rule map_res_inverse[of "edges g" "sanitize_edge N" edge_json])
  have props: "get_prop (flow_json g) (U ''nodes'') = Some (JArr (map node_json (nodes g)))"
    "get_prop (flow_json g) (U ''edges'') = Some (JArr (map edge_json (edges g)))"
    "truthy N (Some (flow_json g))"
    by (simp_all add: flow_json_def get_prop_def U_def)
  show ?thesis
    unfolding validateFlowchart_def
    using nz by (simp add: props keep nodes2 edges1 edges2)
qed

theorem resanitize_is_identity_witness:
  "validateFlowchart int_ops example_raw = Inr (Some example_graph) \<and>
   list_all (\<lambda>y. node_id y \<noteq> [] \<and> data_label y \<noteq> []) (nodes example_graph) \<and>
   list_all (\<lambda>e. edge_id e \<noteq> [] \<and> label e \<noteq> Some []) (edges example_graph) \<and>
   validateFlowchart int_ops (flow_json example_graph) = Inr (Some example_graph)"
proof -
  have h2: "\<forall>y \<in> set (nodes example_graph). node_id y \<noteq> [] \<and> data_label y \<noteq> []"
    by (simp add: example_graph_def U_def)
  have h3: "\<forall>e \<in> set (edges example_graph). edge_id e \<noteq> [] \<and> label e \<noteq> Some []"
    by (simp add: example_graph_def U_def)
  from resanitize_is_identity[OF example_accepted h2 h3] example_accepted h2 h3
  show ?thesis unfolding list_all_iff by blast
qed

text \<open>
  The claim C4 as stated fails: an empty array is truthy and its string form is empty,
  so a node whose \<open>id\<close> is \<open>[]\<close> is kept with the identifier \<open>""\<close>, and the second
  call drops it and returns \<open>null\<close>.
\<close>

theorem resanitize_drops_empty_id:
  "validateFlowchart int_ops example_array_id =
     Inr (Some \<lparr>nodes = [\<lparr>node_id = [], node_type = Process, position_x = 250,
                         position_y = 0, data_label = U ''a''\<rparr>],
                edges = []\<rparr>) \<and>
   validateFlowchart int_ops
     (flow_json \<lparr>nodes = [\<lparr>node_id = [], node_type = Process, position_x = 250,
                         position_y = 0, data_label = U ''a''\<rparr>],
                edges = []\<rparr>) = Inr None"
  by (simp add: example_array_id_def validate_eval)


section \<open>Properties of the extractor\<close>

lemma index_of_None_iff: "index_of xs sub = None \<longleftrightarrow> \<not> js_includes xs sub"
  by (induction xs) (auto split: option.splits)

lemma index_of_bound: "index_of xs sub = Some a \<Longrightarrow> a + length sub \<le> length xs"
proof (induction xs arbitrary: a)
  case Nil
  then show ?case by (simp split: if_splits)
next
  case (Cons x xs)
  show ?case
  proof (cases "prefix sub (x # xs)")
    case True
    with Cons.prems have "a = 0" by simp
    with prefix_length_le[OF True] show ?thesis by simp
  next
    case False
    with Cons.prems obtain b where "index_of xs sub = Some b" "a = Suc b"
      by (auto split: option.splits)
    with Cons.IH[of b] show ?thesis by simp
  qed
qed

lemma prefix_append_disjoint:
  assumes "set sub \<inter> set post = {}"
  shows "prefix sub (xs @ post) \<longleftrightarrow> prefix sub xs"
proof
  assume "prefix sub (xs @ post)"
  then consider "prefix sub xs" | us where "sub = xs @ us" "prefix us post"
    by (auto simp: prefix_append)
  then show "prefix sub xs"
  proof cases
    case 1 then show ?thesis .
  next
    case 2
    have "us = []"
    proof (rule ccontr)
      assume "us \<noteq> []"
      then obtain u us' where u: "us = u # us'" by (cases us) auto
      with 2 have "u \<in> set sub" "u \<in> set post" by (auto simp: prefix_def)
      with assms show False by auto
    qed
    with 2 show ?thesis by simp
  qed
qed (auto simp: prefix_def)

lemma index_of_disjoint_None:
  "sub \<noteq> [] \<Longrightarrow> set sub \<inter> set post = {} \<Longrightarrow> index_of post sub = None"
proof (induction post)
  case Nil
  then show ?case by simp
next
  case (Cons c post)
  from Cons.prems have d: "set sub \<inter> set post = {}" by auto
  have "\<not> prefix sub (c # post)"
  proof
    assume "prefix sub (c # post)"
    with Cons.prems(1) have "hd sub \<in> set (c # post)"
      by (cases sub) (auto simp: prefix_def)
    moreover have "hd sub \<in> set sub" using Cons.prems(1) by simp
    ultimately show False using Cons.prems(2) by auto
  qed
  with Cons.IH[OF Cons.prems(1) d] show ?case by simp
qed

lemma index_of_append_disjoint:
  assumes "sub \<noteq> []" and "set sub \<inter> set post = {}"
  shows "index_of (xs @ post) sub = index_of xs sub"
proof (induction xs)
  case Nil
  with assms show ?case by (simp add: index_of_disjoint_None)
next
  case (Cons x xs)
  have "prefix sub (x # xs @ post) \<longleftrightarrow> prefix sub (x # xs)"
    using prefix_append_disjoint[OF assms(2), of "x # xs"] by simp
  with Cons show ?case by simp
qed

lemma index_of_skip:
  "c \<notin> set pre \<Longrightarrow>
   index_of (pre @ raw) [c] = map_option (\<lambda>a. length pre + a) (index_of raw [c])"
  by (induction pre) (auto simp: option.map_ident split: option.splits cong: option.map_cong)

lemma js_includes_append_disjoint:
  assumes "sub \<noteq> []" and "set sub \<inter> set post = {}"
  shows "js_includes (xs @ post) sub \<longleftrightarrow> js_includes xs sub"
  using index_of_append_disjoint[OF assms, of xs] index_of_None_iff[of "xs @ post" sub]
    index_of_None_iff[of xs sub] by auto

lemma js_includes_dropWhile: "js_includes (dropWhile P xs) sub \<Longrightarrow> js_includes xs sub"
  by (induction xs) (auto split: if_splits)

lemma not_ws_backtick: "\<not> is_ws 0x60" by (simp add: is_ws_def)
lemma ws_newline: "is_ws 0xA" by (simp add: is_ws_def)

lemma trim_between: "\<not> is_ws c \<Longrightarrow> trim (c # m @ [c]) = c # m @ [c]"
  by (simp add: trim_def)

lemma fenced_shape: "\<exists>m. fenced tagged p = 0x60 # m @ [0x60]"
  by (simp add: fenced_def fence_def)

lemma trim_fenced: "trim (fenced tagged p) = fenced tagged p"
  using fenced_shape[of tagged p] trim_between[OF not_ws_backtick] by metis

lemma try_parse_fenced:
  "rejects_non_json parse \<Longrightarrow> try_parse N parse (trim (fenced tagged p)) = None"
  using fenced_shape[of tagged p]
  by (auto simp: trim_fenced try_parse_def rejects_non_json_def)

lemma prefix_fence_iff: "prefix fence zs \<longleftrightarrow> (\<exists>r. zs = 0x60 # 0x60 # 0x60 # r)"
  by (auto simp: fence_def prefix_def)

lemma not_prefix_fence_newline:
  assumes "\<not> prefix fence (x # xs)"
  shows "\<not> prefix fence ((x # xs) @ 0xA # fence)"
proof
  assume "prefix fence ((x # xs) @ 0xA # fence)"
  then obtain r where r: "(x # xs) @ 0xA # fence = 0x60 # 0x60 # 0x60 # r"
    unfolding prefix_fence_iff by blast
  show False
  proof (cases xs)
    case Nil
    with r show False by simp
  next
    case (Cons y ys)
    show False
    proof (cases ys)
      case Nil
      with Cons r show False by simp
    next
      case (Cons z zs)
      with \<open>xs = y # ys\<close> r have "x # xs = 0x60 # 0x60 # 0x60 # zs" by simp
      with assms show False unfolding prefix_fence_iff by blast
    qed
  qed
qed

lemma index_of_fence_after:
  "\<not> js_includes xs fence \<Longrightarrow> index_of (xs @ 0xA # fence) fence = Some (Suc (length xs))"
proof (induction xs)
  case Nil
  then show ?case by (simp add: fence_def)
next
  case (Cons x xs)
  then have "\<not> prefix fence (x # xs)" "\<not> js_includes xs fence" by simp_all
  with Cons.IH not_prefix_fence_newline[of x xs] show ?case by simp
qed

lemma dropWhile_ws_inner:
  "dropWhile is_ws (0xA # p @ 0xA # fence) =
     (if dropWhile is_ws p = [] then fence else dropWhile is_ws p @ 0xA # fence)"
proof (cases "dropWhile is_ws p = []")
  case True
  then have "\<forall>x \<in> set p. is_ws x" by (simp add: dropWhile_eq_Nil_conv)
  then have "dropWhile is_ws (p @ 0xA # fence) = dropWhile is_ws (0xA # fence)"
    by (simp add: dropWhile_append)
  then have "dropWhile is_ws (0xA # p @ 0xA # fence) = fence"
    by (simp add: ws_newline fence_def not_ws_backtick)
  then show ?thesis unfolding True by simp
next
  case False
  then obtain x where "x \<in> set p" "\<not> is_ws x" by (auto simp: dropWhile_eq_Nil_conv)
  then have "dropWhile is_ws (p @ 0xA # fence) = dropWhile is_ws p @ 0xA # fence"
    by (rule dropWhile_append1)
  with False show ?thesis by (simp add: ws_newline)
qed

lemma fence_match_fenced:
  assumes "\<not> js_includes p fence"
  shows "fence_match (fenced tagged p) =
           Some (if dropWhile is_ws p = [] then [] else dropWhile is_ws p @ [0xA])"
proof -
  let ?rest = "0xA # p @ 0xA # fence"
  let ?tag = "if tagged then U ''json'' else []"
  have shape: "fenced tagged p = fence @ ?tag @ ?rest" by (simp add: fenced_def)
  have i0: "index_of (fence @ X) fence = Some 0" for X
    by (simp add: fence_def)
  have d3: "drop (0 + 3) (fence @ X) = X" for X by (simp add: fence_def)
  have r2: "(if prefix (U ''json'') (?tag @ ?rest) then drop 4 (?tag @ ?rest) else ?tag @ ?rest)
              = ?rest"
    by (cases tagged) (simp_all add: U_def)
  have fm: "fence_match (fenced tagged p) =
              (case index_of (dropWhile is_ws ?rest) fence of
                 None \<Rightarrow> None | Some e \<Rightarrow> Some (take e (dropWhile is_ws ?rest)))"
    unfolding fence_match_def shape i0 option.case Let_def d3 r2 ..
  show ?thesis
  proof (cases "dropWhile is_ws p = []")
    case True
    have "index_of fence fence = Some 0" by (simp add: fence_def)
    then show ?thesis unfolding fm dropWhile_ws_inner True by simp
  next
    case False
    have "\<not> js_includes (dropWhile is_ws p) fence"
      using assms js_includes_dropWhile by blast
    from index_of_fence_after[OF this]
    have e: "index_of (dropWhile is_ws p @ 0xA # fence) fence =
               Some (Suc (length (dropWhile is_ws p)))" .
    show ?thesis unfolding fm dropWhile_ws_inner if_not_P[OF False] e by simp
  qed
qed

lemma hd_dropWhile_ws: "dropWhile is_ws p \<noteq> [] \<Longrightarrow> \<not> is_ws (hd (dropWhile is_ws p))"
  by (rule hd_dropWhile)

lemma trim_inner:
  "trim (if dropWhile is_ws p = [] then [] else dropWhile is_ws p @ [0xA]) = trim p"
proof (cases "dropWhile is_ws p = []")
  case True
  show ?thesis unfolding trim_def True by simp
next
  case False
  then obtain c cs where c: "dropWhile is_ws p = c # cs" by (cases "dropWhile is_ws p") auto
  with hd_dropWhile_ws[OF False] have "\<not> is_ws c" by simp
  with c show ?thesis by (simp add: trim_def ws_newline)
qed

lemma fence_match_plain:
  assumes "\<not> js_includes p fence"
  shows "fence_match p = None"
proof -
  have "index_of p fence = None" using assms by (simp add: index_of_None_iff)
  then show ?thesis by (simp add: fence_match_def)
qed

lemma U_brace: "U ''{'' = [0x7B]" "U ''}'' = [0x7D]" by (simp_all add: U_def)

lemma brace_match_prepend:
  assumes "0x7B \<notin> set pre"
  shows "brace_match (pre @ raw) = brace_match raw"
proof (cases "index_of raw [0x7B]")
  case None
  with index_of_skip[OF assms, of raw] show ?thesis
    by (simp add: brace_match_def U_brace)
next
  case (Some a)
  with index_of_skip[OF assms, of raw]
  have "index_of (pre @ raw) [0x7B] = Some (length pre + a)" by simp
  with Some show ?thesis by (simp add: brace_match_def U_brace Let_def)
qed

lemma brace_match_append:
  assumes "0x7B \<notin> set post" and "0x7D \<notin> set post" and "set quoted_nodes \<inter> set post = {}"
  shows "brace_match (raw @ post) = brace_match raw"
proof -
  have i1: "index_of (raw @ post) [0x7B] = index_of raw [0x7B]"
    using assms(1) by (intro index_of_append_disjoint) simp_all
  show ?thesis
  proof (cases "index_of raw [0x7B]")
    case None
    with i1 show ?thesis by (simp add: brace_match_def U_brace)
  next
    case (Some a)
    from index_of_bound[OF Some] have "a + 1 \<le> length raw" by simp
    then have d1: "drop (a + 1) (raw @ post) = drop (a + 1) raw @ post" by simp
    have q: "quoted_nodes \<noteq> []" by (simp add: quoted_nodes_def)
    have i2: "index_of (drop (a + 1) raw @ post) quoted_nodes =
                index_of (drop (a + 1) raw) quoted_nodes"
      using q assms(3) by (rule index_of_append_disjoint)
    show ?thesis
    proof (cases "index_of (drop (a + 1) raw) quoted_nodes")
      case None
      with Some i1 i2 d1 show ?thesis by (simp add: brace_match_def U_brace Let_def)
    next
      case b: (Some b)
      from index_of_bound[OF b] have "b + 7 \<le> length (drop (a + 1) raw)"
        by (simp add: quoted_nodes_def U_def)
      then have d2: "drop (b + 7) (drop (a + 1) raw @ post) =
                       drop (b + 7) (drop (a + 1) raw) @ post" by simp
      have "js_includes (drop (b + 7) (drop (a + 1) raw) @ post) [0x7D] =
              js_includes (drop (b + 7) (drop (a + 1) raw)) [0x7D]"
        using assms(2) by (intro js_includes_append_disjoint) simp_all
      with Some b i1 i2 d1 d2 show ?thesis
        by (simp add: brace_match_def U_brace Let_def del: drop_drop)
    qed
  qed
qed

lemma scan_end: "\<not> i < length raw \<Longrightarrow> scan N parse raw i d s = None"
  by (subst scan.simps) simp

lemma scan_other:
  "i < length raw \<Longrightarrow> raw ! i \<noteq> 0x7B \<Longrightarrow> raw ! i \<noteq> 0x7D \<Longrightarrow>
   scan N parse raw i d s = scan N parse raw (i + 1) d s"
  by (subst scan.simps) simp

lemma scan_no_brace:
  "(\<forall>j. i \<le> j \<and> j < length raw \<longrightarrow> raw ! j \<noteq> 0x7B \<and> raw ! j \<noteq> 0x7D) \<Longrightarrow>
   scan N parse raw i d s = None"
proof (induction "length raw - i" arbitrary: i)
  case 0
  then show ?case by (simp add: scan_end)
next
  case (Suc k)
  then have lt: "i < length raw" by simp
  with Suc.prems have nb: "raw ! i \<noteq> 0x7B" "raw ! i \<noteq> 0x7D" by auto
  have "scan N parse raw (i + 1) d s = None"
    using Suc.hyps(2) Suc.prems by (intro Suc.hyps(1)) auto
  with scan_other[OF lt nb, of N parse d s] show ?case by simp
qed

lemma scan_skip:
  assumes "\<forall>c \<in> set pre. c \<noteq> 0x7B \<and> c \<noteq> 0x7D"
  shows "j \<le> length pre \<Longrightarrow>
         scan N parse (pre @ raw) j d s = scan N parse (pre @ raw) (length pre) d s"
proof (induction "length pre - j" arbitrary: j)
  case 0
  then show ?case by simp
next
  case (Suc k)
  then have lt: "j < length pre" by simp
  then have "(pre @ raw) ! j = pre ! j" "pre ! j \<in> set pre" by (simp_all add: nth_append)
  with assms have nb: "(pre @ raw) ! j \<noteq> 0x7B" "(pre @ raw) ! j \<noteq> 0x7D" by auto
  have "scan N parse (pre @ raw) (j + 1) d s = scan N parse (pre @ raw) (length pre) d s"
    using Suc.hyps(2) lt by (intro Suc.hyps(1)) auto
  with scan_other[OF _ nb, of N parse d s] lt show ?case by simp
qed

lemma scan_prepend:
  "scan N parse (pre @ raw) (length pre + i) d (if 0 \<le> s then s + int (length pre) else s) =
   scan N parse raw i d s"
proof (induction "length raw - i" arbitrary: i d s)
  case 0
  then show ?case by (simp add: scan_end)
next
  case (Suc k)
  then have lt: "i < length raw" by simp
  have ih: "\<And>d s. scan N parse (pre @ raw) (length pre + (i + 1)) d
                    (if 0 \<le> s then s + int (length pre) else s) =
                  scan N parse raw (i + 1) d s"
    using Suc.hyps(2) by (intro Suc.hyps(1)) auto
  have ih2: "\<And>d. scan N parse (pre @ raw) (Suc (length pre + i)) d
                    (int (length pre) + int i) =
                  scan N parse raw (Suc i) d (int i)"
    using ih[of _ "int i"] by (simp add: add.commute)
  have cand: "0 \<le> s \<Longrightarrow> nat (s + int (length pre)) = nat s + length pre"
    by (simp add: nat_add_distrib)
  show ?case
  proof (cases "0 \<le> s")
    case True
    with ih[of _ s] ih2 cand lt show ?thesis
      apply (subst scan.simps[of N parse "pre @ raw" "length pre + i"])
      apply (subst scan.simps[of N parse raw i])
      apply (simp add: Let_def nth_append add.assoc split: option.splits)
      done
  next
    case False
    with ih[of _ s] ih2 lt show ?thesis
      apply (subst scan.simps[of N parse "pre @ raw" "length pre + i"])
      apply (subst scan.simps[of N parse raw i])
      apply (simp add: Let_def nth_append add.assoc split: option.splits)
      done
  qed
qed

lemma scan_append:
  assumes "\<forall>c \<in> set post. c \<noteq> 0x7B \<and> c \<noteq> 0x7D"
  shows "scan N parse (raw @ post) i d s = scan N parse raw i d s"
proof (induction "length raw - i" arbitrary: i d s)
  case 0
  then have ge: "\<not> i < length raw" by simp
  have "\<forall>j. i \<le> j \<and> j < length (raw @ post) \<longrightarrow>
          (raw @ post) ! j \<noteq> 0x7B \<and> (raw @ post) ! j \<noteq> 0x7D"
  proof (intro allI impI)
    fix j assume j: "i \<le> j \<and> j < length (raw @ post)"
    with ge have "(raw @ post) ! j = post ! (j - length raw)" "j - length raw < length post"
      by (auto simp: nth_append)
    then have "(raw @ post) ! j \<in> set post" by simp
    with assms show "(raw @ post) ! j \<noteq> 0x7B \<and> (raw @ post) ! j \<noteq> 0x7D" by blast
  qed
  from scan_no_brace[OF this, of N parse d s] scan_end[OF ge, of N parse d s]
  show ?case by simp
next
  case (Suc k)
  then have lt: "i < length raw" by simp
  have ih: "\<And>d s. scan N parse (raw @ post) (i + 1) d s = scan N parse raw (i + 1) d s"
    using Suc.hyps(2) by (intro Suc.hyps(1)) auto
  have cand: "take (i + 1 - nat s) (drop (nat s) (raw @ post)) =
              take (i + 1 - nat s) (drop (nat s) raw)"
    using lt by simp
  show ?case
    apply (subst scan.simps[of N parse "raw @ post" i])
    apply (subst scan.simps[of N parse raw i])
    using lt ih cand
    apply (simp add: Let_def nth_append split: option.splits)
    done
qed

lemma scan_wrapped:
  assumes "\<forall>c \<in> set pre. c \<noteq> 0x7B \<and> c \<noteq> 0x7D" and "\<forall>c \<in> set post. c \<noteq> 0x7B \<and> c \<noteq> 0x7D"
  shows "scan N parse (pre @ raw @ post) 0 0 (- 1) = scan N parse raw 0 0 (- 1)"
proof -
  have "scan N parse (pre @ raw @ post) 0 0 (- 1) =
        scan N parse (pre @ raw @ post) (length pre) 0 (- 1)"
    using scan_skip[OF assms(1), of 0 N parse "raw @ post" 0 "- 1"] by simp
  also have "\<dots> = scan N parse (raw @ post) 0 0 (- 1)"
    using scan_prepend[of N parse pre "raw @ post" 0 0 "- 1"] by simp
  also have "\<dots> = scan N parse raw 0 0 (- 1)"
    using scan_append[OF assms(2), of N parse raw 0 0 "- 1"] by simp
  finally show ?thesis .
qed

text \<open>
  C8, as the code has it. For every payload that contains no run of three backticks,
  \<open>extractJSON\<close> returns on the fenced payload, tagged \<open>json\<close> or not, what it returns on
  the payload itself; when the trimmed payload decodes to a value with truthy \<open>nodes\<close>
  and \<open>edges\<close>, that value is the result.
\<close>

theorem fenced_extraction_same:
  assumes "rejects_non_json parse" and "\<not> js_includes p fence"
  shows "extractJSON N parse (fenced tagged p) = extractJSON N parse p \<and>
         (\<forall>v. try_parse N parse (trim p) = Some v \<longrightarrow> extractJSON N parse p = Some v)"
proof -
  let ?pre = "fence @ (if tagged then U ''json'' else []) @ [0xA]"
  let ?post = "0xA # fence"
  have shape: "fenced tagged p = ?pre @ p @ ?post" by (simp add: fenced_def)
  have pre: "\<forall>c \<in> set ?pre. c \<noteq> 0x7B \<and> c \<noteq> 0x7D" by (auto simp: fence_def U_def)
  have post: "\<forall>c \<in> set ?post. c \<noteq> 0x7B \<and> c \<noteq> 0x7D" by (simp add: fence_def)
  have postq: "set quoted_nodes \<inter> set ?post = {}" by (simp add: fence_def quoted_nodes_def U_def)
  have bm: "brace_match (fenced tagged p) = brace_match p"
    unfolding shape using pre post postq
    by (subst brace_match_prepend, fastforce, subst brace_match_append) auto
  have sc: "scan N parse (fenced tagged p) 0 0 (- 1) = scan N parse p 0 0 (- 1)"
    unfolding shape by (rule scan_wrapped[OF pre post])
  have ne: "fenced tagged p \<noteq> []" by (simp add: fenced_def fence_def)
  have s1: "try_parse N parse (trim (fenced tagged p)) = None"
    by (rule try_parse_fenced[OF assms(1)])
  have left: "extractJSON N parse (fenced tagged p) =
          (case try_parse N parse (trim p) of
             Some v \<Rightarrow> Some v
           | None \<Rightarrow> (if brace_match p then scan N parse p 0 0 (- 1) else None))"
    unfolding extractJSON_def
    by (simp add: ne s1 fence_match_fenced[OF assms(2)] trim_inner bm sc
             del: dropWhile_eq_Nil_conv split: option.splits)
  have empty: "try_parse N parse [] = None"
    using assms(1) by (simp add: try_parse_def rejects_non_json_def)
  have right: "extractJSON N parse p =
          (case try_parse N parse (trim p) of
             Some v \<Rightarrow> Some v
           | None \<Rightarrow> (if brace_match p then scan N parse p 0 0 (- 1) else None))"
  proof (cases "p = []")
    case True
    then show ?thesis
      by (simp add: extractJSON_def trim_def empty brace_match_def U_def)
  next
    case False
    then show ?thesis
      by (simp add: extractJSON_def fence_match_plain[OF assms(2)] split: option.splits)
  qed
  from left right show ?thesis by simp
qed


theorem fenced_extraction_same_witness:
  "rejects_non_json example_parse \<and> \<not> js_includes example_payload fence \<and>
   try_parse int_ops example_parse (trim example_payload) = Some example_value \<and>
   extractJSON int_ops example_parse (fenced True example_payload) = Some example_value \<and>
   extractJSON int_ops example_parse (fenced False example_payload) = Some example_value \<and>
   extractJSON int_ops example_parse example_payload = Some example_value"
proof -
  have h1: "rejects_non_json example_parse"
    by (simp add: rejects_non_json_def example_parse_def example_payload_def U_def)
  have h2: "\<not> js_includes example_payload fence"
    by (simp add: example_payload_def U_def fence_def)
  have h3: "try_parse int_ops example_parse (trim example_payload) = Some example_value"
    by (simp add: try_parse_def example_parse_def has_nodes_edges_def example_value_def
          get_prop_def)
       (simp add: example_payload_def U_def trim_def is_ws_def)
  from fenced_extraction_same[OF h1 h2, of int_ops True] fenced_extraction_same[OF h1 h2, of int_ops False] h1 h2 h3
  show ?thesis by simp
qed

text \<open>
  The claim C8 as stated fails: a valid payload whose label contains a closing brace
  and three backticks is extracted when it stands alone, but not when it is fenced. The
  fence pattern stops at the backticks inside the label, and the brace scan is thrown
  off by the brace inside the label.
\<close>

theorem fence_inside_label_breaks_extraction:
  "extractJSON int_ops tricky_parse tricky_payload = Some tricky_value \<and>
   extractJSON int_ops tricky_parse (fenced True tricky_payload) = None \<and>
   extractJSON int_ops tricky_parse (fenced False tricky_payload) = None"
  by (simp add: extractJSON_def try_parse_def tricky_parse_def tricky_payload_def
        tricky_value_def has_nodes_edges_def get_prop_def fenced_def fence_def U_def
        trim_def is_ws_def fence_match_def brace_match_def quoted_nodes_def Let_def
        scan.simps)


end
